theory Spec2Isabelle
  imports Main "HOL-Library.Word"
begin

unbundle bit_operations_syntax

section \<open>Homing cycle of limits.c\<close>

text \<open>
  A shallow embedding of \<^verbatim>\<open>src/limits.c\<close>: \<^verbatim>\<open>homing_cycle\<close>, \<^verbatim>\<open>approach_limit_switch\<close>,
  \<^verbatim>\<open>leave_limit_switch\<close> and \<^verbatim>\<open>limits_go_home\<close>. The registers and the locals of the C code are
  fields of records, the endless \<^verbatim>\<open>for(;;)\<close> loop is a partial function into \<open>option\<close>
  (\<open>None\<close>: the loop never returns), and every access to the stepping port and every
  delay is logged in a trace.
\<close>

subsection \<open>Data\<close>

type_synonym u8 = "8 word"
type_synonym u32 = "32 word"

datatype axis = X_AXIS | Y_AXIS | Z_AXIS | C_AXIS

text \<open>
  The macros of \<^verbatim>\<open>config.h\<close> that \<^verbatim>\<open>limits.c\<close> uses. The header is not part of the source
  at hand, so the values are parameters. \<open>HOME_X\<close> ... \<open>HOME_C\<close> say whether the macro of
  that name is defined.
\<close>

record config =
  DIRECTION_MASK :: u8
  STEP_MASK :: u8
  LIMIT_MASK :: u8
  X_STEP_BIT :: nat
  Y_STEP_BIT :: nat
  Z_STEP_BIT :: nat
  C_STEP_BIT :: nat
  X_LIMIT_BIT :: nat
  Y_LIMIT_BIT :: nat
  Z_LIMIT_BIT :: nat
  C_LIMIT_BIT :: nat
  HOME_X :: bool
  HOME_Y :: bool
  HOME_Z :: bool
  HOME_C :: bool

text \<open>
  The fields of the global \<^verbatim>\<open>settings\<close> that \<^verbatim>\<open>limits.c\<close> reads. The rates and the
  resolution are floating-point numbers in the C code; their type is the parameter \<open>'f\<close>.
  \<open>pulse_microseconds\<close> enters an \<^verbatim>\<open>uint32_t\<close> subtraction, where the usual arithmetic
  conversions widen an unsigned value of any smaller type to 32 bits, so the field is
  kept at that width.
\<close>

record 'f settings =
  pulse_microseconds :: u32
  invert_mask_stepdir :: u8
  invert_mask_limit :: u8
  steps_per_mm :: "axis \<Rightarrow> 'f"
  default_seek_rate :: 'f
  default_feed_rate :: 'f

text \<open>What the code does to the outside, in the order in which it does it.\<close>

datatype event =
  STEPPING_PORT_write u8
| STEPPING_PIN_write u8
| delay_us u32

text \<open>
  The machine: the output register \<^verbatim>\<open>STEPPING_PORT\<close>, the input register \<^verbatim>\<open>LIMIT_PIN\<close>
  (volatile: \<open>LIMIT_PIN m n\<close> is the byte that the \<open>n\<close>-th read returns, \<open>reads\<close> counts
  the reads made so far), the trace, and \<^verbatim>\<open>sys.position\<close>. The code only assigns the
  constant 0 to the coordinates, so they are kept as integers.
\<close>

record machine =
  STEPPING_PORT :: u8
  LIMIT_PIN :: "nat \<Rightarrow> u8"
  reads :: nat
  trace :: "event list"
  position :: "axis \<Rightarrow> int"

text \<open>The locals of \<^verbatim>\<open>homing_cycle\<close> that live across iterations of its loop.\<close>

record locals =
  x_axis :: bool
  y_axis :: bool
  z_axis :: bool
  c_axis :: bool
  out_bits :: u8
  x_limit_count :: u8
  y_limit_count :: u8
  z_limit_count :: u8
  c_limit_count :: u8

subsection \<open>Port accesses\<close>

text \<open>An assignment to \<^verbatim>\<open>STEPPING_PORT\<close>.\<close>

definition write_STEPPING_PORT :: "u8 \<Rightarrow> machine \<Rightarrow> machine" where
  "write_STEPPING_PORT v m =
     m\<lparr>STEPPING_PORT := v, trace := trace m @ [STEPPING_PORT_write v]\<rparr>"

text \<open>
  An assignment to \<^verbatim>\<open>STEPPING_PIN\<close>. On the AVR, writing a one to a bit of the PIN register
  toggles that bit of the PORT register (``End pulse via toggle'', line 128).
\<close>

definition write_STEPPING_PIN :: "u8 \<Rightarrow> machine \<Rightarrow> machine" where
  "write_STEPPING_PIN v m =
     m\<lparr>STEPPING_PORT := STEPPING_PORT m XOR v, trace := trace m @ [STEPPING_PIN_write v]\<rparr>"

definition do_delay_us :: "u32 \<Rightarrow> machine \<Rightarrow> machine" where
  "do_delay_us us m = m\<lparr>trace := trace m @ [delay_us us]\<rparr>"

text \<open>A read of \<^verbatim>\<open>LIMIT_PIN\<close>: the byte read and the machine after the read.\<close>

definition read_LIMIT_PIN :: "machine \<Rightarrow> u8 \<times> machine" where
  "read_LIMIT_PIN m = (LIMIT_PIN m (reads m), m\<lparr>reads := Suc (reads m)\<rparr>)"

subsection \<open>homing_cycle\<close>

text \<open>
  Lines 40 to 54: the output word, from the direction mask, the step bits of the requested
  axes, the reversal and the global invert mask.
\<close>

definition initial_out_bits ::
  "config \<Rightarrow> 'f settings \<Rightarrow> bool \<Rightarrow> bool \<Rightarrow> bool \<Rightarrow> bool \<Rightarrow> bool \<Rightarrow> u8" where
  "initial_out_bits cfg st x y z c reverse_direction =
    (let out = DIRECTION_MASK cfg;
         out = (if x then out OR push_bit (X_STEP_BIT cfg) 1 else out);
         out = (if y then out OR push_bit (Y_STEP_BIT cfg) 1 else out);
         out = (if z then out OR push_bit (Z_STEP_BIT cfg) 1 else out);
         out = (if c then out OR push_bit (C_STEP_BIT cfg) 1 else out);
         out = (if reverse_direction then out XOR DIRECTION_MASK cfg else out)
     in out XOR invert_mask_stepdir st)"

text \<open>Lines 63 to 71: the sampled limit byte, after the reversal and the global invert mask.\<close>

definition process_limit_bits :: "config \<Rightarrow> 'f settings \<Rightarrow> bool \<Rightarrow> u8 \<Rightarrow> u8" where
  "process_limit_bits cfg st reverse_direction pin =
    (let limit_bits = pin;
         limit_bits = (if reverse_direction then limit_bits XOR LIMIT_MASK cfg else limit_bits)
     in limit_bits XOR invert_mask_limit st)"

text \<open>
  One of the four per-axis blocks (lines 73 to 84 for X, and the same for Y, Z and C, each
  with its own limit bit, step bit, flag and counter): the flag, the counter and the output
  word after the block.
\<close>

definition limit_check :: "u8 \<Rightarrow> nat \<Rightarrow> nat \<Rightarrow> bool \<Rightarrow> u8 \<Rightarrow> u8 \<Rightarrow> bool \<times> u8 \<times> u8" where
  "limit_check limit_bits limit_bit step_bit axis_flag limit_count out =
    (if axis_flag then
       (let limit_count =
              (if limit_bits AND push_bit limit_bit 1 = 0 then limit_count + 1 else 0)
        in if 10 \<le> limit_count
           then (False, limit_count, out XOR push_bit step_bit 1)
           else (True, limit_count, out))
     else (False, limit_count, out))"

text \<open>Lines 126 to 129: one step pulse on the bits of the output word.\<close>

definition step_pulse :: "config \<Rightarrow> 'f settings \<Rightarrow> u32 \<Rightarrow> u8 \<Rightarrow> machine \<Rightarrow> machine" where
  "step_pulse cfg st step_delay out m =
    (let m = write_STEPPING_PORT
               ((STEPPING_PORT m AND NOT (STEP_MASK cfg)) OR (out AND STEP_MASK cfg)) m;
         m = do_delay_us (pulse_microseconds st) m;
         m = write_STEPPING_PIN (out AND STEP_MASK cfg) m
     in do_delay_us step_delay m)"

text \<open>
  The body of the loop, lines 63 to 129. The first component of the result says whether
  the body left the function through the \<^verbatim>\<open>return\<close> of line 123.
\<close>

definition homing_iteration ::
  "config \<Rightarrow> 'f settings \<Rightarrow> bool \<Rightarrow> u32 \<Rightarrow> locals \<times> machine \<Rightarrow> bool \<times> locals \<times> machine" where
  "homing_iteration cfg st reverse_direction step_delay s =
    (let l = fst s;
         (pin, m) = read_LIMIT_PIN (snd s);
         limit_bits = process_limit_bits cfg st reverse_direction pin;
         (x, xc, out) = limit_check limit_bits (X_LIMIT_BIT cfg) (X_STEP_BIT cfg)
                          (x_axis l) (x_limit_count l) (out_bits l);
         (y, yc, out) = limit_check limit_bits (Y_LIMIT_BIT cfg) (Y_STEP_BIT cfg)
                          (y_axis l) (y_limit_count l) out;
         (z, zc, out) = limit_check limit_bits (Z_LIMIT_BIT cfg) (Z_STEP_BIT cfg)
                          (z_axis l) (z_limit_count l) out;
         (c, cc, out) = limit_check limit_bits (C_LIMIT_BIT cfg) (C_STEP_BIT cfg)
                          (c_axis l) (c_limit_count l) out;
         l = \<lparr>x_axis = x, y_axis = y, z_axis = z, c_axis = c, out_bits = out,
              x_limit_count = xc, y_limit_count = yc, z_limit_count = zc, c_limit_count = cc\<rparr>
     in if \<not> (x \<or> y \<or> z \<or> c) then (True, l, m)
        else (False, l, step_pulse cfg st step_delay out m))"

text \<open>The loop of lines 62 to 130. \<open>None\<close>: it runs forever.\<close>

partial_function (option) homing_loop ::
  "config \<Rightarrow> 'f settings \<Rightarrow> bool \<Rightarrow> u32 \<Rightarrow> locals \<times> machine \<Rightarrow> (locals \<times> machine) option" where
  "homing_loop cfg st reverse_direction step_delay s =
    (let r = homing_iteration cfg st reverse_direction step_delay s
     in if fst r then Some (snd r)
        else homing_loop cfg st reverse_direction step_delay (snd r))"

declare homing_loop.simps [code]

text \<open>Lines 39 to 60: the state in which the loop is entered.\<close>

definition homing_setup ::
  "config \<Rightarrow> 'f settings \<Rightarrow> bool \<Rightarrow> bool \<Rightarrow> bool \<Rightarrow> bool \<Rightarrow> bool \<Rightarrow> machine \<Rightarrow> locals \<times> machine" where
  "homing_setup cfg st x y z c reverse_direction m =
    (let out = initial_out_bits cfg st x y z c reverse_direction;
         m = write_STEPPING_PORT
               ((STEPPING_PORT m AND NOT (DIRECTION_MASK cfg)) OR (out AND DIRECTION_MASK cfg)) m
     in (\<lparr>x_axis = x, y_axis = y, z_axis = z, c_axis = c, out_bits = out,
          x_limit_count = 0, y_limit_count = 0, z_limit_count = 0, c_limit_count = 0\<rparr>, m))"

definition homing_cycle ::
  "config \<Rightarrow> 'f settings \<Rightarrow> bool \<Rightarrow> bool \<Rightarrow> bool \<Rightarrow> bool \<Rightarrow> bool \<Rightarrow> u32 \<Rightarrow> machine \<Rightarrow> machine option" where
  "homing_cycle cfg st x y z c reverse_direction microseconds_per_pulse m =
    (let step_delay = microseconds_per_pulse - pulse_microseconds st
     in map_option snd
          (homing_loop cfg st reverse_direction step_delay
             (homing_setup cfg st x y z c reverse_direction m)))"

subsection \<open>The homing sequence\<close>

text \<open>
  \<^verbatim>\<open>FEEDRATE_TO_PERIOD_US\<close> is floating-point arithmetic, converted to \<^verbatim>\<open>uint32_t\<close> where the
  result is passed to \<^verbatim>\<open>homing_cycle\<close>. The arithmetic is the parameter \<open>to_period_us\<close>:
  from the rate and the resolution of the X axis to the period passed on.
\<close>

definition approach_limit_switch ::
  "('f \<Rightarrow> 'f \<Rightarrow> u32) \<Rightarrow> config \<Rightarrow> 'f settings \<Rightarrow> bool \<Rightarrow> bool \<Rightarrow> bool \<Rightarrow> bool \<Rightarrow>
     machine \<Rightarrow> machine option" where
  "approach_limit_switch to_period_us cfg st x y z c m =
     homing_cycle cfg st x y z c False
       (to_period_us (default_seek_rate st) (steps_per_mm st X_AXIS)) m"

definition leave_limit_switch ::
  "('f \<Rightarrow> 'f \<Rightarrow> u32) \<Rightarrow> config \<Rightarrow> 'f settings \<Rightarrow> bool \<Rightarrow> bool \<Rightarrow> bool \<Rightarrow> bool \<Rightarrow>
     machine \<Rightarrow> machine option" where
  "leave_limit_switch to_period_us cfg st x y z c m =
     homing_cycle cfg st x y z c True
       (to_period_us (default_feed_rate st) (steps_per_mm st X_AXIS)) m"

text \<open>Line 174: the chained assignment of 0 to the four coordinates.\<close>

definition set_machine_zero :: "machine \<Rightarrow> machine" where
  "set_machine_zero m =
     m\<lparr>position := (position m)(C_AXIS := 0, Z_AXIS := 0, Y_AXIS := 0, X_AXIS := 0)\<rparr>"

text \<open>
  \<^verbatim>\<open>plan_synchronize\<close> (planner.c) and \<^verbatim>\<open>st_enable\<close> (stepper.c) are not part of the source at
  hand: they are parameters, any two functions on the machine.
\<close>

definition limits_go_home ::
  "(machine \<Rightarrow> machine) \<Rightarrow> (machine \<Rightarrow> machine) \<Rightarrow> ('f \<Rightarrow> 'f \<Rightarrow> u32) \<Rightarrow>
     config \<Rightarrow> 'f settings \<Rightarrow> machine \<Rightarrow> machine option" where
  "limits_go_home plan_synchronize st_enable to_period_us cfg st m =
    (let m = plan_synchronize m;
         m = st_enable m;
         home_x = HOME_X cfg; home_y = HOME_Y cfg; home_z = HOME_Z cfg; home_c = HOME_C cfg
     in case approach_limit_switch to_period_us cfg st False False home_z False m of
          None \<Rightarrow> None
        | Some m \<Rightarrow>
     (case approach_limit_switch to_period_us cfg st home_x home_y False home_c m of
          None \<Rightarrow> None
        | Some m \<Rightarrow>
     (case leave_limit_switch to_period_us cfg st home_x home_y home_z home_c m of
          None \<Rightarrow> None
        | Some m \<Rightarrow> Some (set_machine_zero m))))"

subsection \<open>Notions for stating the properties\<close>

text \<open>The flag, the counter, the step bit and the limit bit of an axis.\<close>

definition axis_active :: "locals \<Rightarrow> axis \<Rightarrow> bool" where
  "axis_active l a = (case a of X_AXIS \<Rightarrow> x_axis l | Y_AXIS \<Rightarrow> y_axis l
     | Z_AXIS \<Rightarrow> z_axis l | C_AXIS \<Rightarrow> c_axis l)"

definition limit_count :: "locals \<Rightarrow> axis \<Rightarrow> u8" where
  "limit_count l a = (case a of X_AXIS \<Rightarrow> x_limit_count l | Y_AXIS \<Rightarrow> y_limit_count l
     | Z_AXIS \<Rightarrow> z_limit_count l | C_AXIS \<Rightarrow> c_limit_count l)"

definition step_bit :: "config \<Rightarrow> axis \<Rightarrow> nat" where
  "step_bit cfg a = (case a of X_AXIS \<Rightarrow> X_STEP_BIT cfg | Y_AXIS \<Rightarrow> Y_STEP_BIT cfg
     | Z_AXIS \<Rightarrow> Z_STEP_BIT cfg | C_AXIS \<Rightarrow> C_STEP_BIT cfg)"

definition limit_bit :: "config \<Rightarrow> axis \<Rightarrow> nat" where
  "limit_bit cfg a = (case a of X_AXIS \<Rightarrow> X_LIMIT_BIT cfg | Y_AXIS \<Rightarrow> Y_LIMIT_BIT cfg
     | Z_AXIS \<Rightarrow> Z_LIMIT_BIT cfg | C_AXIS \<Rightarrow> C_LIMIT_BIT cfg)"

text \<open>The axis is among those that the arguments of a call request.\<close>

definition requested :: "bool \<Rightarrow> bool \<Rightarrow> bool \<Rightarrow> bool \<Rightarrow> axis \<Rightarrow> bool" where
  "requested x y z c a = (case a of X_AXIS \<Rightarrow> x | Y_AXIS \<Rightarrow> y | Z_AXIS \<Rightarrow> z | C_AXIS \<Rightarrow> c)"

text \<open>
  The limit bit of the axis reads ``triggered'' in the byte read from the limit port: after
  the processing of lines 65 to 71 the bit is set, so that the test of line 74 (86, 98,
  110) fails and the counter is reset.
\<close>

definition triggered :: "config \<Rightarrow> 'f settings \<Rightarrow> bool \<Rightarrow> u8 \<Rightarrow> axis \<Rightarrow> bool" where
  "triggered cfg st reverse_direction pin a \<longleftrightarrow>
     process_limit_bits cfg st reverse_direction pin AND push_bit (limit_bit cfg a) 1 \<noteq> 0"

text \<open>The counter of an active axis after the iteration that starts in state \<open>s\<close>.\<close>

definition next_count :: "config \<Rightarrow> 'f settings \<Rightarrow> bool \<Rightarrow> locals \<times> machine \<Rightarrow> axis \<Rightarrow> u8" where
  "next_count cfg st reverse_direction s a =
     (if triggered cfg st reverse_direction (LIMIT_PIN (snd s) (reads (snd s))) a then 0
      else limit_count (fst s) a + 1)"

text \<open>The state after \<open>n\<close> runs of the body of the loop, from state \<open>s\<close>.\<close>

primrec homing_state ::
  "config \<Rightarrow> 'f settings \<Rightarrow> bool \<Rightarrow> u32 \<Rightarrow> nat \<Rightarrow> locals \<times> machine \<Rightarrow> locals \<times> machine" where
  "homing_state cfg st reverse_direction step_delay 0 s = s"
| "homing_state cfg st reverse_direction step_delay (Suc n) s =
     snd (homing_iteration cfg st reverse_direction step_delay
            (homing_state cfg st reverse_direction step_delay n s))"

text \<open>The counter and the change of the output word in one per-axis block.\<close>

definition new_count :: "u8 \<Rightarrow> nat \<Rightarrow> u8 \<Rightarrow> u8" where
  "new_count lb k cnt = (if lb AND push_bit k 1 = 0 then cnt + 1 else 0)"

definition stop_bit :: "bool \<Rightarrow> nat \<Rightarrow> u8" where
  "stop_bit b sb = (if b then push_bit sb 1 else 0)"

text \<open>From state \<open>s\<close>, the loop returns in iteration \<open>n\<close> and in none before.\<close>

definition returns_at ::
  "config \<Rightarrow> 'f settings \<Rightarrow> bool \<Rightarrow> u32 \<Rightarrow> locals \<times> machine \<Rightarrow> nat \<Rightarrow> bool" where
  "returns_at cfg st rv d s n \<longleftrightarrow>
     fst (homing_iteration cfg st rv d (homing_state cfg st rv d n s)) \<and>
     (\<forall>k<n. \<not> fst (homing_iteration cfg st rv d (homing_state cfg st rv d k s)))"

text \<open>
  The number of samples ``not triggered'' of the axis directly before read \<open>n\<close> of a pass
  that starts on machine \<open>m\<close>: the length of the current run.
\<close>

primrec run_length ::
  "config \<Rightarrow> 'f settings \<Rightarrow> bool \<Rightarrow> machine \<Rightarrow> axis \<Rightarrow> nat \<Rightarrow> nat" where
  "run_length cfg st rv m a 0 = 0"
| "run_length cfg st rv m a (Suc n) =
     (if triggered cfg st rv (LIMIT_PIN m (reads m + n)) a then 0
      else Suc (run_length cfg st rv m a n))"

text \<open>
  The locals and the machine of a call of \<^verbatim>\<open>homing_cycle\<close> at the start of iteration \<open>n\<close>
  of its loop (counted from 0), and the byte that this iteration reads from the limit port.
\<close>

definition cycle_state ::
  "config \<Rightarrow> 'f settings \<Rightarrow> bool \<Rightarrow> bool \<Rightarrow> bool \<Rightarrow> bool \<Rightarrow> bool \<Rightarrow> u32 \<Rightarrow> machine \<Rightarrow> nat \<Rightarrow>
     locals \<times> machine" where
  "cycle_state cfg st x y z c rv mpp m n =
     homing_state cfg st rv (mpp - pulse_microseconds st) n (homing_setup cfg st x y z c rv m)"

definition sample :: "machine \<Rightarrow> nat \<Rightarrow> u8" where
  "sample m n = LIMIT_PIN m (reads m + n)"

text \<open>
  An event leaves the bits of the stepping port outside \<^verbatim>\<open>STEP_MASK\<close> as they are in \<open>v\<close>:
  a write to the port agrees with \<open>v\<close> there, a toggle toggles none of them.
\<close>

fun keeps_outside_step_mask :: "config \<Rightarrow> u8 \<Rightarrow> event \<Rightarrow> bool" where
  "keeps_outside_step_mask cfg v (STEPPING_PORT_write p) \<longleftrightarrow>
     p AND NOT (STEP_MASK cfg) = v AND NOT (STEP_MASK cfg)"
| "keeps_outside_step_mask cfg v (STEPPING_PIN_write t) \<longleftrightarrow> t AND NOT (STEP_MASK cfg) = 0"
| "keeps_outside_step_mask cfg v (delay_us us) \<longleftrightarrow> True"

text \<open>
  The step bits of the four axes are bits of the port, differ from each other, belong to
  \<^verbatim>\<open>STEP_MASK\<close> and do not belong to \<^verbatim>\<open>DIRECTION_MASK\<close>.
\<close>

definition well_formed :: "config \<Rightarrow> bool" where
  "well_formed cfg \<longleftrightarrow>
     distinct (map (step_bit cfg) [X_AXIS, Y_AXIS, Z_AXIS, C_AXIS]) \<and>
     list_all (\<lambda>a. step_bit cfg a < 8 \<and> bit (STEP_MASK cfg) (step_bit cfg a) \<and>
                  \<not> bit (DIRECTION_MASK cfg) (step_bit cfg a))
       [X_AXIS, Y_AXIS, Z_AXIS, C_AXIS]"

text \<open>Iteration \<open>n\<close> of a call leaves the loop through the \<^verbatim>\<open>return\<close>.\<close>

definition cycle_returns ::
  "config \<Rightarrow> 'f settings \<Rightarrow> bool \<Rightarrow> bool \<Rightarrow> bool \<Rightarrow> bool \<Rightarrow> bool \<Rightarrow> u32 \<Rightarrow> machine \<Rightarrow> nat \<Rightarrow> bool" where
  "cycle_returns cfg st x y z c rv mpp m n \<longleftrightarrow>
     fst (homing_iteration cfg st rv (mpp - pulse_microseconds st)
            (cycle_state cfg st x y z c rv mpp m n))"

text \<open>The events of iteration \<open>n\<close> of a call.\<close>

definition cycle_events ::
  "config \<Rightarrow> 'f settings \<Rightarrow> bool \<Rightarrow> bool \<Rightarrow> bool \<Rightarrow> bool \<Rightarrow> bool \<Rightarrow> u32 \<Rightarrow> machine \<Rightarrow> nat \<Rightarrow>
     event list" where
  "cycle_events cfg st x y z c rv mpp m n =
     drop (length (trace (snd (cycle_state cfg st x y z c rv mpp m n))))
       (trace (snd (cycle_state cfg st x y z c rv mpp m (Suc n))))"

text \<open>
  The step line of the axis is at its asserted level in a value of the stepping port. The
  idle level of a line is its bit in the step invert mask, the asserted level the
  complement.
\<close>

definition step_line_asserted :: "config \<Rightarrow> 'f settings \<Rightarrow> axis \<Rightarrow> u8 \<Rightarrow> bool" where
  "step_line_asserted cfg st a port \<longleftrightarrow>
     bit port (step_bit cfg a) \<noteq> bit (invert_mask_stepdir st) (step_bit cfg a)"

text \<open>
  The events are one step pulse on the step line of the axis: a write to the port that
  asserts the line, then a toggle of the line.
\<close>

fun step_pulse_on :: "config \<Rightarrow> 'f settings \<Rightarrow> axis \<Rightarrow> event list \<Rightarrow> bool" where
  "step_pulse_on cfg st a
     [STEPPING_PORT_write p, delay_us w, STEPPING_PIN_write t, delay_us d] \<longleftrightarrow>
     step_line_asserted cfg st a p \<and> bit t (step_bit cfg a)"
| "step_pulse_on cfg st a es \<longleftrightarrow> False"

text \<open>The coordinate of an axis after a run, if the run returns.\<close>

definition position_after :: "machine option \<Rightarrow> axis \<Rightarrow> int option" where
  "position_after r a = map_option (\<lambda>m. position m a) r"


subsection \<open>A test bench\<close>

text \<open>
  Step bits 0 to 3 and direction bits 4 to 7 of the stepping port, limit bits 0 to 3 of
  the limit port, in the order X, Y, Z, C; X, Y and Z are homed, C is not.
\<close>

definition bench_config :: config where
  "bench_config =
     \<lparr>DIRECTION_MASK = 0xF0, STEP_MASK = 0x0F, LIMIT_MASK = 0x0F,
      X_STEP_BIT = 0, Y_STEP_BIT = 1, Z_STEP_BIT = 2, C_STEP_BIT = 3,
      X_LIMIT_BIT = 0, Y_LIMIT_BIT = 1, Z_LIMIT_BIT = 2, C_LIMIT_BIT = 3,
      HOME_X = True, HOME_Y = True, HOME_Z = True, HOME_C = False\<rparr>"

text \<open>Settings with a pulse width of 10 microseconds and the given step invert mask.\<close>

definition bench_settings :: "u8 \<Rightarrow> u32 settings" where
  "bench_settings stepdir =
     \<lparr>pulse_microseconds = 10, invert_mask_stepdir = stepdir, invert_mask_limit = 0,
      steps_per_mm = (\<lambda>_. 80), default_seek_rate = 100, default_feed_rate = 50\<rparr>"

text \<open>
  A machine at rest with the given stepping port and limit input, every coordinate at 5.
\<close>

definition bench_machine :: "u8 \<Rightarrow> (nat \<Rightarrow> u8) \<Rightarrow> machine" where
  "bench_machine port pin =
     \<lparr>STEPPING_PORT = port, LIMIT_PIN = pin, reads = 0, trace = [], position = (\<lambda>_. 5)\<rparr>"

text \<open>
  A limit input that reads the same byte for ever, and one that reads \<open>v\<close> for the first
  \<open>k\<close> reads and \<open>w\<close> from then on.
\<close>

definition steady :: "u8 \<Rightarrow> nat \<Rightarrow> u8" where
  "steady v n = v"

definition switching :: "nat \<Rightarrow> u8 \<Rightarrow> u8 \<Rightarrow> nat \<Rightarrow> u8" where
  "switching k v w n = (if n < k then v else w)"

text \<open>
  The period on the test bench, in integer arithmetic: 7500 microseconds at the seek rate
  and 15000 at the feed rate of the bench settings, where the quotients are exact.
\<close>

definition bench_period_us :: "u32 \<Rightarrow> u32 \<Rightarrow> u32" where
  "bench_period_us f s = 60000000 div (f * s)"

section \<open>Properties\<close>

subsection \<open>One iteration of the loop\<close>

lemma limit_check_eq:
  "limit_check lb k sb f cnt out =
     (f \<and> \<not> 10 \<le> new_count lb k cnt,
      if f then new_count lb k cnt else cnt,
      out XOR stop_bit (f \<and> 10 \<le> new_count lb k cnt) sb)"
  by (simp add: limit_check_def Let_def new_count_def stop_bit_def)

lemma next_count_eq:
  "next_count cfg st rv s a =
     new_count (process_limit_bits cfg st rv (LIMIT_PIN (snd s) (reads (snd s))))
       (limit_bit cfg a) (limit_count (fst s) a)"
  by (simp add: next_count_def new_count_def triggered_def)

lemma iteration_eq:
  "homing_iteration cfg st rv d s =
    (let x = x_axis (fst s) \<and> \<not> 10 \<le> next_count cfg st rv s X_AXIS;
         y = y_axis (fst s) \<and> \<not> 10 \<le> next_count cfg st rv s Y_AXIS;
         z = z_axis (fst s) \<and> \<not> 10 \<le> next_count cfg st rv s Z_AXIS;
         c = c_axis (fst s) \<and> \<not> 10 \<le> next_count cfg st rv s C_AXIS;
         out = (((out_bits (fst s)
           XOR stop_bit (x_axis (fst s) \<and> 10 \<le> next_count cfg st rv s X_AXIS) (X_STEP_BIT cfg))
           XOR stop_bit (y_axis (fst s) \<and> 10 \<le> next_count cfg st rv s Y_AXIS) (Y_STEP_BIT cfg))
           XOR stop_bit (z_axis (fst s) \<and> 10 \<le> next_count cfg st rv s Z_AXIS) (Z_STEP_BIT cfg))
           XOR stop_bit (c_axis (fst s) \<and> 10 \<le> next_count cfg st rv s C_AXIS) (C_STEP_BIT cfg);
         l = \<lparr>x_axis = x, y_axis = y, z_axis = z, c_axis = c, out_bits = out,
              x_limit_count = (if x_axis (fst s) then next_count cfg st rv s X_AXIS else x_limit_count (fst s)),
              y_limit_count = (if y_axis (fst s) then next_count cfg st rv s Y_AXIS else y_limit_count (fst s)),
              z_limit_count = (if z_axis (fst s) then next_count cfg st rv s Z_AXIS else z_limit_count (fst s)),
              c_limit_count = (if c_axis (fst s) then next_count cfg st rv s C_AXIS else c_limit_count (fst s))\<rparr>;
         m = (snd s)\<lparr>reads := Suc (reads (snd s))\<rparr>
     in if \<not> (x \<or> y \<or> z \<or> c) then (True, l, m) else (False, l, step_pulse cfg st d out m))"
  unfolding homing_iteration_def limit_check_eq read_LIMIT_PIN_def next_count_eq
    limit_count_def limit_bit_def Let_def split_def axis.case fst_conv snd_conv
  by (rule refl)

lemma all_axis: "(\<forall>a. P a) \<longleftrightarrow> P X_AXIS \<and> P Y_AXIS \<and> P Z_AXIS \<and> P C_AXIS"
  by (metis axis.exhaust)

lemma iteration_active:
  "axis_active (fst (snd (homing_iteration cfg st rv d s))) a \<longleftrightarrow>
     axis_active (fst s) a \<and> \<not> 10 \<le> next_count cfg st rv s a"
  by (cases a) (simp_all add: iteration_eq Let_def axis_active_def)

lemma iteration_count:
  "limit_count (fst (snd (homing_iteration cfg st rv d s))) a =
     (if axis_active (fst s) a then next_count cfg st rv s a else limit_count (fst s) a)"
  by (cases a) (simp_all add: iteration_eq Let_def axis_active_def limit_count_def)

lemma iteration_done:
  "fst (homing_iteration cfg st rv d s) \<longleftrightarrow>
     (\<forall>a. \<not> axis_active (fst (snd (homing_iteration cfg st rv d s))) a)"
  by (simp add: all_axis iteration_eq Let_def axis_active_def)

lemma iteration_out_bits:
  "out_bits (fst (snd (homing_iteration cfg st rv d s))) =
     (((out_bits (fst s)
       XOR stop_bit (x_axis (fst s) \<and> 10 \<le> next_count cfg st rv s X_AXIS) (X_STEP_BIT cfg))
       XOR stop_bit (y_axis (fst s) \<and> 10 \<le> next_count cfg st rv s Y_AXIS) (Y_STEP_BIT cfg))
       XOR stop_bit (z_axis (fst s) \<and> 10 \<le> next_count cfg st rv s Z_AXIS) (Z_STEP_BIT cfg))
       XOR stop_bit (c_axis (fst s) \<and> 10 \<le> next_count cfg st rv s C_AXIS) (C_STEP_BIT cfg)"
  by (simp add: iteration_eq Let_def)

lemma iteration_pulse:
  "\<not> fst (homing_iteration cfg st rv d s) \<Longrightarrow>
     snd (snd (homing_iteration cfg st rv d s)) =
       step_pulse cfg st d (out_bits (fst (snd (homing_iteration cfg st rv d s))))
         ((snd s)\<lparr>reads := Suc (reads (snd s))\<rparr>)"
  unfolding iteration_eq Let_def by (simp split: if_splits) blast

lemma iteration_return:
  "fst (homing_iteration cfg st rv d s) \<Longrightarrow>
     snd (snd (homing_iteration cfg st rv d s)) = (snd s)\<lparr>reads := Suc (reads (snd s))\<rparr>"
  unfolding iteration_eq Let_def by (simp split: if_splits) blast

lemma step_pulse_fields:
  "reads (step_pulse cfg st d out m) = reads m"
  "LIMIT_PIN (step_pulse cfg st d out m) = LIMIT_PIN m"
  "position (step_pulse cfg st d out m) = position m"
  "STEPPING_PORT (step_pulse cfg st d out m) =
     ((STEPPING_PORT m AND NOT (STEP_MASK cfg)) OR (out AND STEP_MASK cfg)) XOR (out AND STEP_MASK cfg)"
  "trace (step_pulse cfg st d out m) = trace m @
     [STEPPING_PORT_write ((STEPPING_PORT m AND NOT (STEP_MASK cfg)) OR (out AND STEP_MASK cfg)),
      delay_us (pulse_microseconds st), STEPPING_PIN_write (out AND STEP_MASK cfg), delay_us d]"
  by (simp_all add: step_pulse_def write_STEPPING_PORT_def write_STEPPING_PIN_def do_delay_us_def)

lemma iteration_machine:
  "reads (snd (snd (homing_iteration cfg st rv d s))) = Suc (reads (snd s))"
  "LIMIT_PIN (snd (snd (homing_iteration cfg st rv d s))) = LIMIT_PIN (snd s)"
  "position (snd (snd (homing_iteration cfg st rv d s))) = position (snd s)"
  by (cases "fst (homing_iteration cfg st rv d s)"; simp add: iteration_pulse iteration_return step_pulse_fields)+

lemma homing_state_shift:
  "homing_state cfg st rv d (Suc n) s =
     homing_state cfg st rv d n (snd (homing_iteration cfg st rv d s))"
  by (induction n) simp_all

lemma homing_loop_returns:
  "fst (homing_iteration cfg st rv d (homing_state cfg st rv d n s)) \<Longrightarrow>
   (\<forall>k<n. \<not> fst (homing_iteration cfg st rv d (homing_state cfg st rv d k s))) \<Longrightarrow>
   homing_loop cfg st rv d s = Some (homing_state cfg st rv d (Suc n) s)"
proof (induction n arbitrary: s)
  case 0
  then show ?case by (subst homing_loop.simps) (simp add: Let_def)
next
  case (Suc n)
  let ?s = "snd (homing_iteration cfg st rv d s)"
  from Suc.prems(2) have first: "\<not> fst (homing_iteration cfg st rv d s)"
    by (metis homing_state.simps(1) zero_less_Suc)
  have "fst (homing_iteration cfg st rv d (homing_state cfg st rv d n ?s))"
    using Suc.prems(1) by (simp only: homing_state_shift)
  moreover have "\<forall>k<n. \<not> fst (homing_iteration cfg st rv d (homing_state cfg st rv d k ?s))"
  proof (intro allI impI)
    fix k assume "k < n"
    then have "Suc k < Suc n" by simp
    with Suc.prems(2) have "\<not> fst (homing_iteration cfg st rv d (homing_state cfg st rv d (Suc k) s))"
      by blast
    then show "\<not> fst (homing_iteration cfg st rv d (homing_state cfg st rv d k ?s))"
      by (simp add: homing_state_shift del: homing_state.simps)
  qed
  ultimately have "homing_loop cfg st rv d ?s = Some (homing_state cfg st rv d (Suc n) ?s)"
    by (rule Suc.IH)
  then show ?case
    using first by (subst homing_loop.simps) (simp add: Let_def homing_state_shift del: homing_state.simps)
qed

subsection \<open>The loop and its iterations\<close>

lemma returns_at_0: "fst (homing_iteration cfg st rv d s) \<Longrightarrow> returns_at cfg st rv d s 0"
  by (simp add: returns_at_def)

lemma returns_at_Suc:
  "\<not> fst (homing_iteration cfg st rv d s) \<Longrightarrow>
   returns_at cfg st rv d s (Suc n) \<longleftrightarrow>
     returns_at cfg st rv d (snd (homing_iteration cfg st rv d s)) n"
  unfolding returns_at_def homing_state_shift
  by (auto simp: less_Suc_eq_0_disj homing_state_shift simp del: homing_state.simps(2))

lemma homing_loop_Some:
  assumes "homing_loop cfg st rv d s = Some r"
  shows "\<exists>n. returns_at cfg st rv d s n \<and> r = homing_state cfg st rv d (Suc n) s"
proof (rule homing_loop.raw_induct
    [where P = "\<lambda>cfg st rv d s r. \<exists>n. returns_at cfg st rv d s n \<and> r = homing_state cfg st rv d (Suc n) s",
     OF _ assms])
  fix loop :: "config \<Rightarrow> 'a settings \<Rightarrow> bool \<Rightarrow> u32 \<Rightarrow> locals \<times> machine \<Rightarrow> (locals \<times> machine) option"
    and cfg st rv d s r
  assume IH: "\<And>cfg st rv d s r. loop cfg st rv d s = Some r \<Longrightarrow>
      \<exists>n. returns_at cfg st rv d s n \<and> r = homing_state cfg st rv d (Suc n) s"
  assume eq: "(let r = homing_iteration cfg st rv d s
     in if fst r then Some (snd r) else loop cfg st rv d (snd r)) = Some r"
  show "\<exists>n. returns_at cfg st rv d s n \<and> r = homing_state cfg st rv d (Suc n) s"
  proof (cases "fst (homing_iteration cfg st rv d s)")
    case True
    with eq have "r = homing_state cfg st rv d (Suc 0) s" by (simp add: Let_def)
    with True show ?thesis using returns_at_0 by blast
  next
    case False
    let ?s = "snd (homing_iteration cfg st rv d s)"
    from False eq have "loop cfg st rv d ?s = Some r" by (simp add: Let_def)
    from IH [OF this] obtain n where
      n: "returns_at cfg st rv d ?s n" "r = homing_state cfg st rv d (Suc n) ?s" by blast
    from n(1) False have "returns_at cfg st rv d s (Suc n)" by (simp add: returns_at_Suc)
    moreover from n(2) have "r = homing_state cfg st rv d (Suc (Suc n)) s"
      by (simp only: homing_state_shift)
    ultimately show ?thesis by blast
  qed
qed

lemma homing_loop_returns_at:
  "returns_at cfg st rv d s n \<Longrightarrow>
     homing_loop cfg st rv d s = Some (homing_state cfg st rv d (Suc n) s)"
  unfolding returns_at_def by (rule homing_loop_returns) blast+

subsection \<open>The counters along a pass\<close>

lemma homing_state_machine:
  "reads (snd (homing_state cfg st rv d n s)) = reads (snd s) + n"
  "LIMIT_PIN (snd (homing_state cfg st rv d n s)) = LIMIT_PIN (snd s)"
  "position (snd (homing_state cfg st rv d n s)) = position (snd s)"
  by (induction n) (simp_all add: iteration_machine)

lemma unat_next_count:
  assumes "unat (limit_count (fst s) a) < 10"
  shows "unat (next_count cfg st rv s a) =
     (if triggered cfg st rv (LIMIT_PIN (snd s) (reads (snd s))) a then 0
      else Suc (unat (limit_count (fst s) a)))"
proof -
  have "unat (limit_count (fst s) a + 1) = Suc (unat (limit_count (fst s) a))"
    using assms by (simp add: unat_word_ariths)
  then show ?thesis by (simp add: next_count_def)
qed

lemma ten_le_iff: "(10 :: u8) \<le> w \<longleftrightarrow> 10 \<le> unat w"
  by (simp add: word_le_nat_alt)

lemma trajectory:
  assumes "limit_count (fst s) a = 0"
  shows "(axis_active (fst (homing_state cfg st rv d n s)) a \<longleftrightarrow>
            axis_active (fst s) a \<and> (\<forall>k\<le>n. run_length cfg st rv (snd s) a k < 10)) \<and>
         (axis_active (fst (homing_state cfg st rv d n s)) a \<longrightarrow>
            unat (limit_count (fst (homing_state cfg st rv d n s)) a) =
              run_length cfg st rv (snd s) a n)"
proof (induction n)
  case 0
  show ?case using assms by simp
next
  case (Suc n)
  let ?s = "homing_state cfg st rv d n s"
  show ?case
  proof (cases "axis_active (fst ?s) a")
    case False
    with Suc show ?thesis
      by (auto simp: iteration_active le_Suc_eq)
  next
    case True
    with Suc have cnt: "unat (limit_count (fst ?s) a) = run_length cfg st rv (snd s) a n"
      and lt: "\<forall>k\<le>n. run_length cfg st rv (snd s) a k < 10" and act: "axis_active (fst s) a"
      by blast+
    from cnt lt have "unat (limit_count (fst ?s) a) < 10" by simp
    then have nc: "unat (next_count cfg st rv ?s a) = run_length cfg st rv (snd s) a (Suc n)"
      by (simp add: unat_next_count homing_state_machine cnt)
    show ?thesis
      using True lt act nc
      by (auto simp: iteration_active iteration_count ten_le_iff le_Suc_eq
            simp del: run_length.simps)
  qed
qed

lemma run_length_cong:
  "LIMIT_PIN m' = LIMIT_PIN m \<Longrightarrow> reads m' = reads m \<Longrightarrow>
     run_length cfg st rv m' a n = run_length cfg st rv m a n"
  by (induction n) simp_all

lemma homing_setup_fields:
  "limit_count (fst (homing_setup cfg st x y z c rv m)) a = 0"
  "axis_active (fst (homing_setup cfg st x y z c rv m)) a = requested x y z c a"
  "out_bits (fst (homing_setup cfg st x y z c rv m)) = initial_out_bits cfg st x y z c rv"
  "reads (snd (homing_setup cfg st x y z c rv m)) = reads m"
  "LIMIT_PIN (snd (homing_setup cfg st x y z c rv m)) = LIMIT_PIN m"
  "position (snd (homing_setup cfg st x y z c rv m)) = position m"
  by (cases a; simp add: homing_setup_def Let_def limit_count_def axis_active_def requested_def
        write_STEPPING_PORT_def)+

lemma run_length_ge_D:
  "c \<le> run_length cfg st rv m a k \<Longrightarrow>
     c \<le> k \<and> (\<forall>j<c. \<not> triggered cfg st rv (LIMIT_PIN m (reads m + ((k - c) + j))) a)"
proof (induction k arbitrary: c)
  case 0
  then show ?case by simp
next
  case (Suc k)
  show ?case
  proof (cases c)
    case 0
    then show ?thesis by simp
  next
    case (Suc c')
    with Suc.prems have quiet: "\<not> triggered cfg st rv (LIMIT_PIN m (reads m + k)) a"
      and "c' \<le> run_length cfg st rv m a k"
      by (auto split: if_splits)
    from Suc.IH [OF this(2)] have le: "c' \<le> k"
      and run: "\<forall>j<c'. \<not> triggered cfg st rv (LIMIT_PIN m (reads m + ((k - c') + j))) a"
      by blast+
    have "\<not> triggered cfg st rv (LIMIT_PIN m (reads m + ((k - c') + j))) a" if "j < Suc c'" for j
    proof (cases "j < c'")
      case True
      with run show ?thesis by blast
    next
      case False
      with that have "j = c'" by simp
      with le quiet show ?thesis by simp
    qed
    with le show ?thesis unfolding Suc by simp
  qed
qed

lemma run_length_ge_I:
  "(\<forall>j<c. \<not> triggered cfg st rv (LIMIT_PIN m (reads m + (k + j))) a) \<Longrightarrow>
     c \<le> run_length cfg st rv m a (k + c)"
proof (induction c)
  case 0
  then show ?case by simp
next
  case (Suc c)
  then have "c \<le> run_length cfg st rv m a (k + c)"
    and "\<not> triggered cfg st rv (LIMIT_PIN m (reads m + (k + c))) a"
    by simp_all
  then show ?case by simp
qed

lemma run_of_ten_iff:
  "(\<exists>k. 10 \<le> run_length cfg st rv m a k) \<longleftrightarrow>
   (\<exists>k. \<forall>j<10. \<not> triggered cfg st rv (LIMIT_PIN m (reads m + (k + j))) a)"
proof
  assume "\<exists>k. 10 \<le> run_length cfg st rv m a k"
  then obtain k where "10 \<le> run_length cfg st rv m a k" ..
  from run_length_ge_D [OF this]
  show "\<exists>k. \<forall>j<10. \<not> triggered cfg st rv (LIMIT_PIN m (reads m + (k + j))) a"
    by blast
next
  assume "\<exists>k. \<forall>j<10. \<not> triggered cfg st rv (LIMIT_PIN m (reads m + (k + j))) a"
  then obtain k where "\<forall>j<10. \<not> triggered cfg st rv (LIMIT_PIN m (reads m + (k + j))) a" ..
  from run_length_ge_I [OF this]
  show "\<exists>k. 10 \<le> run_length cfg st rv m a k" by blast
qed

lemma setup_active:
  "axis_active (fst (homing_state cfg st rv d n (homing_setup cfg st x y z c rv m))) a \<longleftrightarrow>
     requested x y z c a \<and> (\<forall>k\<le>n. run_length cfg st rv m a k < 10)"
  using trajectory [of "homing_setup cfg st x y z c rv m" a cfg st rv d n]
  by (simp add: homing_setup_fields run_length_cong [of "snd (homing_setup cfg st x y z c rv m)" m])

lemma homing_loop_returns_iff:
  "(\<exists>r. homing_loop cfg st rv d (homing_setup cfg st x y z c rv m) = Some r) \<longleftrightarrow>
   (\<forall>a. requested x y z c a \<longrightarrow> (\<exists>k. 10 \<le> run_length cfg st rv m a k))"
  (is "?L \<longleftrightarrow> ?R")
proof
  let ?s = "homing_setup cfg st x y z c rv m"
  assume ?L
  then obtain r where "homing_loop cfg st rv d ?s = Some r" ..
  from homing_loop_Some [OF this] obtain n where "returns_at cfg st rv d ?s n" by blast
  then have "fst (homing_iteration cfg st rv d (homing_state cfg st rv d n ?s))"
    by (simp add: returns_at_def)
  then have "\<forall>a. \<not> axis_active (fst (homing_state cfg st rv d (Suc n) ?s)) a"
    by (simp add: iteration_done)
  then have "\<forall>a. requested x y z c a \<longrightarrow> \<not> (\<forall>k\<le>Suc n. run_length cfg st rv m a k < 10)"
    unfolding setup_active by blast
  then show ?R by (meson not_less)
next
  let ?s = "homing_setup cfg st x y z c rv m"
  assume ?R
  then have "\<forall>a. \<exists>k. requested x y z c a \<longrightarrow> 10 \<le> run_length cfg st rv m a k" by blast
  then obtain f where f: "\<And>a. requested x y z c a \<Longrightarrow> 10 \<le> run_length cfg st rv m a (f a)"
    by metis
  define N where "N = f X_AXIS + f Y_AXIS + f Z_AXIS + f C_AXIS"
  have le: "f a \<le> Suc N" for a by (cases a) (simp_all add: N_def)
  have "\<not> axis_active (fst (homing_state cfg st rv d (Suc N) ?s)) a" for a
    unfolding setup_active using f [of a] le [of a] by (meson not_less)
  then have "fst (homing_iteration cfg st rv d (homing_state cfg st rv d N ?s))"
    by (simp add: iteration_done)
  then have "\<exists>n. fst (homing_iteration cfg st rv d (homing_state cfg st rv d n ?s))" ..
  then obtain n where "returns_at cfg st rv d ?s n"
    unfolding returns_at_def by (subst (asm) exists_least_iff) blast
  from homing_loop_returns_at [OF this] show ?L by blast
qed

subsection \<open>Termination of a pass\<close>

text \<open>
  Claim C8. A homing pass returns if and only if every requested axis has, somewhere in
  the samples of the pass, ten consecutive samples whose processed limit bit reads
  ``not triggered''; if some requested axis never has such a run, the pass never returns.
\<close>

theorem homing_cycle_terminates_iff:
  "((\<exists>m'. homing_cycle cfg st x y z c rv mpp m = Some m') \<longleftrightarrow>
    (\<forall>a. requested x y z c a \<longrightarrow>
       (\<exists>k. \<forall>j<10. \<not> triggered cfg st rv (LIMIT_PIN m (reads m + (k + j))) a))) \<and>
   ((\<exists>a. requested x y z c a \<and>
       (\<forall>k. \<exists>j<10. triggered cfg st rv (LIMIT_PIN m (reads m + (k + j))) a)) \<longrightarrow>
    homing_cycle cfg st x y z c rv mpp m = None)"
proof -
  have iff: "(\<exists>m'. homing_cycle cfg st x y z c rv mpp m = Some m') \<longleftrightarrow>
    (\<forall>a. requested x y z c a \<longrightarrow>
       (\<exists>k. \<forall>j<10. \<not> triggered cfg st rv (LIMIT_PIN m (reads m + (k + j))) a))"
    unfolding run_of_ten_iff [symmetric] homing_loop_returns_iff [symmetric, of _ _ _ _ _ _ _ _ "mpp - pulse_microseconds st"]
    by (auto simp: homing_cycle_def Let_def)
  moreover have "homing_cycle cfg st x y z c rv mpp m = None"
    if "\<exists>a. requested x y z c a \<and>
       (\<forall>k. \<exists>j<10. triggered cfg st rv (LIMIT_PIN m (reads m + (k + j))) a)"
  proof (rule ccontr)
    assume "homing_cycle cfg st x y z c rv mpp m \<noteq> None"
    then have "\<exists>m'. homing_cycle cfg st x y z c rv mpp m = Some m'" by auto
    with iff that show False by blast
  qed
  ultimately show ?thesis by blast
qed

theorem homing_cycle_terminates_iff_witness:
  "(\<exists>m'. homing_cycle bench_config (bench_settings 0) True False False False False 7500
           (bench_machine 0 (\<lambda>n. 0)) = Some m') \<and>
   homing_cycle bench_config (bench_settings 0) True False False False False 7500
     (bench_machine 0 (\<lambda>n. 1)) = None"
proof
  have "\<not> triggered bench_config (bench_settings 0) False 0 a" for a
    by (simp add: triggered_def process_limit_bits_def bench_settings_def)
  then show "\<exists>m'. homing_cycle bench_config (bench_settings 0) True False False False False 7500
           (bench_machine 0 (\<lambda>n. 0)) = Some m'"
    using homing_cycle_terminates_iff
      [of bench_config "bench_settings 0" True False False False False 7500 "bench_machine 0 (\<lambda>n. 0)"]
    by (simp add: bench_machine_def)
next
  let ?m = "bench_machine 0 (\<lambda>n. 1)"
  have "triggered bench_config (bench_settings 0) False 1 X_AXIS"
    by (simp add: triggered_def process_limit_bits_def bench_settings_def bench_config_def
          limit_bit_def)
  then have "\<forall>k. \<exists>j<10. triggered bench_config (bench_settings 0) False
      (LIMIT_PIN ?m (reads ?m + (k + j))) X_AXIS"
    by (auto simp: bench_machine_def intro: exI [of _ 0])
  moreover have "requested True False False False X_AXIS" by (simp add: requested_def)
  ultimately have "\<exists>a. requested True False False False a \<and>
      (\<forall>k. \<exists>j<10. triggered bench_config (bench_settings 0) False
         (LIMIT_PIN ?m (reads ?m + (k + j))) a)"
    by blast
  with homing_cycle_terminates_iff
      [of bench_config "bench_settings 0" True False False False False 7500 ?m]
  show "homing_cycle bench_config (bench_settings 0) True False False False False 7500 ?m = None"
    by blast
qed

subsection \<open>The iterations of a call of homing_cycle\<close>

lemma cycle_state_Suc:
  "cycle_state cfg st x y z c rv mpp m (Suc n) =
     snd (homing_iteration cfg st rv (mpp - pulse_microseconds st)
            (cycle_state cfg st x y z c rv mpp m n))"
  by (simp add: cycle_state_def)

lemma cycle_machine:
  "reads (snd (cycle_state cfg st x y z c rv mpp m n)) = reads m + n"
  "LIMIT_PIN (snd (cycle_state cfg st x y z c rv mpp m n)) = LIMIT_PIN m"
  "position (snd (cycle_state cfg st x y z c rv mpp m n)) = position m"
  by (simp_all add: cycle_state_def homing_state_machine homing_setup_fields)

lemma cycle_active:
  "axis_active (fst (cycle_state cfg st x y z c rv mpp m n)) a \<longleftrightarrow>
     requested x y z c a \<and> (\<forall>k\<le>n. run_length cfg st rv m a k < 10)"
  by (simp add: cycle_state_def setup_active)

lemma cycle_count:
  "axis_active (fst (cycle_state cfg st x y z c rv mpp m n)) a \<Longrightarrow>
     unat (limit_count (fst (cycle_state cfg st x y z c rv mpp m n)) a) =
       run_length cfg st rv m a n"
  using trajectory [of "homing_setup cfg st x y z c rv m" a cfg st rv
      "mpp - pulse_microseconds st" n]
  by (simp add: cycle_state_def homing_setup_fields
        run_length_cong [of "snd (homing_setup cfg st x y z c rv m)" m])

lemma cycle_next_count:
  "axis_active (fst (cycle_state cfg st x y z c rv mpp m n)) a \<Longrightarrow>
     unat (next_count cfg st rv (cycle_state cfg st x y z c rv mpp m n) a) =
       (if triggered cfg st rv (sample m n) a then 0
        else Suc (unat (limit_count (fst (cycle_state cfg st x y z c rv mpp m n)) a)))"
  using cycle_count [of cfg st x y z c rv mpp m n a]
    cycle_active [of cfg st x y z c rv mpp m n a]
  by (subst unat_next_count) (auto simp: cycle_machine sample_def)

lemma run_length_quiet:
  "(\<forall>j<k. \<not> triggered cfg st rv (LIMIT_PIN m (reads m + j)) a) \<Longrightarrow>
     run_length cfg st rv m a k = k"
  by (induction k) simp_all

subsection \<open>The debounce counters\<close>

text \<open>
  Claim C2. For an axis requested in a pass, the counter is 0 when the loop is entered. In
  every iteration that the axis enters active, its counter is below 10; a sample whose
  processed limit bit reads ``triggered'' sets the counter to 0 and leaves the axis active;
  a sample that reads ``not triggered'' adds exactly 1 to the counter, and the axis is
  stopped in that iteration if and only if the counter is then 10. A stopped axis stays
  stopped. Nine samples ``not triggered'' and then one ``triggered'' leave the counter at 0
  and the axis active.
\<close>

theorem debounce_counter:
  assumes "requested x y z c a"
  shows "limit_count (fst (cycle_state cfg st x y z c rv mpp m 0)) a = 0 \<and>
    (\<forall>n. axis_active (fst (cycle_state cfg st x y z c rv mpp m n)) a \<longrightarrow>
       unat (limit_count (fst (cycle_state cfg st x y z c rv mpp m n)) a) < 10 \<and>
       (triggered cfg st rv (sample m n) a \<longrightarrow>
          limit_count (fst (cycle_state cfg st x y z c rv mpp m (Suc n))) a = 0 \<and>
          axis_active (fst (cycle_state cfg st x y z c rv mpp m (Suc n))) a) \<and>
       (\<not> triggered cfg st rv (sample m n) a \<longrightarrow>
          unat (limit_count (fst (cycle_state cfg st x y z c rv mpp m (Suc n))) a) =
            Suc (unat (limit_count (fst (cycle_state cfg st x y z c rv mpp m n)) a)) \<and>
          (axis_active (fst (cycle_state cfg st x y z c rv mpp m (Suc n))) a \<longleftrightarrow>
             unat (limit_count (fst (cycle_state cfg st x y z c rv mpp m (Suc n))) a) \<noteq> 10))) \<and>
    (\<forall>n. \<not> axis_active (fst (cycle_state cfg st x y z c rv mpp m n)) a \<longrightarrow>
       \<not> axis_active (fst (cycle_state cfg st x y z c rv mpp m (Suc n))) a) \<and>
    ((\<forall>j<9. \<not> triggered cfg st rv (sample m j) a) \<and> triggered cfg st rv (sample m 9) a \<longrightarrow>
       limit_count (fst (cycle_state cfg st x y z c rv mpp m 10)) a = 0 \<and>
       axis_active (fst (cycle_state cfg st x y z c rv mpp m 10)) a)"
proof -
  let ?S = "cycle_state cfg st x y z c rv mpp m"
  have start: "limit_count (fst (?S 0)) a = 0"
    by (simp add: cycle_state_def homing_setup_fields)
  have step: "unat (limit_count (fst (?S n)) a) < 10 \<and>
       (triggered cfg st rv (sample m n) a \<longrightarrow>
          limit_count (fst (?S (Suc n))) a = 0 \<and> axis_active (fst (?S (Suc n))) a) \<and>
       (\<not> triggered cfg st rv (sample m n) a \<longrightarrow>
          unat (limit_count (fst (?S (Suc n))) a) = Suc (unat (limit_count (fst (?S n)) a)) \<and>
          (axis_active (fst (?S (Suc n))) a \<longleftrightarrow> unat (limit_count (fst (?S (Suc n))) a) \<noteq> 10))"
    if act: "axis_active (fst (?S n)) a" for n
  proof -
    from act have lt: "unat (limit_count (fst (?S n)) a) < 10"
      using cycle_count [OF act] cycle_active [of cfg st x y z c rv mpp m n a] by auto
    have cnt: "limit_count (fst (?S (Suc n))) a = next_count cfg st rv (?S n) a"
      using act by (simp add: cycle_state_Suc iteration_count)
    have act': "axis_active (fst (?S (Suc n))) a \<longleftrightarrow> \<not> 10 \<le> unat (next_count cfg st rv (?S n) a)"
      using act by (simp add: cycle_state_Suc iteration_active ten_le_iff)
    show ?thesis
      using lt cycle_next_count [OF act] unfolding cnt act'
      by (auto simp: unat_eq_0)
  qed
  have stay: "\<not> axis_active (fst (?S (Suc n))) a" if "\<not> axis_active (fst (?S n)) a" for n
    using that by (simp add: cycle_state_Suc iteration_active)
  have scen: "limit_count (fst (?S 10)) a = 0 \<and> axis_active (fst (?S 10)) a"
    if quiet: "\<forall>j<9. \<not> triggered cfg st rv (sample m j) a"
      and trig: "triggered cfg st rv (sample m 9) a"
  proof -
    have "run_length cfg st rv m a k = k" if "k \<le> 9" for k
      using quiet that by (intro run_length_quiet) (simp add: sample_def)
    then have "\<forall>k\<le>9. run_length cfg st rv m a k < 10" by simp
    with assms have "axis_active (fst (?S 9)) a" by (simp add: cycle_active)
    from step [OF this] trig show ?thesis by (simp add: eval_nat_numeral)
  qed
  from start step stay scen show ?thesis by blast
qed

theorem debounce_counter_witness:
  "requested True False False False X_AXIS \<and>
   limit_count (fst (cycle_state bench_config (bench_settings 0) True False False False False
      7500 (bench_machine 0 (\<lambda>n. if n = 9 then 1 else 0)) 10)) X_AXIS = 0 \<and>
   axis_active (fst (cycle_state bench_config (bench_settings 0) True False False False False
      7500 (bench_machine 0 (\<lambda>n. if n = 9 then 1 else 0)) 10)) X_AXIS"
proof -
  let ?m = "bench_machine 0 (\<lambda>n. if n = 9 then 1 else 0)"
  have req: "requested True False False False X_AXIS" by (simp add: requested_def)
  have trig: "triggered bench_config (bench_settings 0) False (sample ?m j) X_AXIS \<longleftrightarrow> j = 9" for j
    by (simp add: triggered_def process_limit_bits_def bench_settings_def bench_config_def
          limit_bit_def sample_def bench_machine_def)
  from debounce_counter [where cfg = bench_config and st = "bench_settings 0" and rv = False
      and m = ?m and mpp = 7500, OF req] trig req
  show ?thesis by simp
qed

subsection \<open>Processing of the limit sample\<close>

lemma bench_machine_fields:
  "STEPPING_PORT (bench_machine p f) = p"
  "LIMIT_PIN (bench_machine p f) = f"
  "reads (bench_machine p f) = 0"
  "trace (bench_machine p f) = []"
  "position (bench_machine p f) = (\<lambda>_. 5)"
  by (simp_all add: bench_machine_def)

text \<open>
  Claim C6. In a reverse pass the byte read from the limit port is XORed with the limit
  mask and then with the global limit invert mask, in a forward pass with the global
  invert mask only, and the counter and the flag of every active axis are decided on the
  byte so processed.
\<close>

theorem limit_bits_processing:
  assumes "axis_active (fst s) a"
  shows
    "limit_count (fst (snd (homing_iteration cfg st True d s))) a =
       (if ((LIMIT_PIN (snd s) (reads (snd s)) XOR LIMIT_MASK cfg) XOR invert_mask_limit st)
             AND push_bit (limit_bit cfg a) 1 = 0
        then limit_count (fst s) a + 1 else 0) \<and>
     limit_count (fst (snd (homing_iteration cfg st False d s))) a =
       (if (LIMIT_PIN (snd s) (reads (snd s)) XOR invert_mask_limit st)
             AND push_bit (limit_bit cfg a) 1 = 0
        then limit_count (fst s) a + 1 else 0) \<and>
     (\<forall>rv. axis_active (fst (snd (homing_iteration cfg st rv d s))) a \<longleftrightarrow>
        \<not> 10 \<le> limit_count (fst (snd (homing_iteration cfg st rv d s))) a)"
  using assms
  by (simp add: iteration_count iteration_active next_count_def triggered_def
        process_limit_bits_def Let_def)

theorem limit_bits_processing_witness:
  "axis_active (fst (homing_setup bench_config (bench_settings 0) False False True False True
      (bench_machine 0 (\<lambda>n. 0xFF)))) Z_AXIS \<and>
   limit_count (fst (snd (homing_iteration bench_config (bench_settings 0) True 7490
     (homing_setup bench_config (bench_settings 0) False False True False True
        (bench_machine 0 (\<lambda>n. 0xFF)))))) Z_AXIS = 1"
proof -
  let ?s = "homing_setup bench_config (bench_settings 0) False False True False True
      (bench_machine 0 (\<lambda>n. 0xFF))"
  have act: "axis_active (fst ?s) Z_AXIS"
    by (simp add: homing_setup_fields requested_def)
  have c: "LIMIT_MASK bench_config = 0x0F" "limit_bit bench_config Z_AXIS = 2"
    "invert_mask_limit (bench_settings 0) = 0"
    by (simp_all add: bench_config_def bench_settings_def limit_bit_def)
  from limit_bits_processing [OF act, of bench_config "bench_settings 0" 7490] act
  show ?thesis
    by (simp add: c homing_setup_fields bench_machine_fields)
qed

subsection \<open>The direction bits\<close>

lemma homing_cycle_Some_iff:
  "homing_cycle cfg st x y z c rv mpp m = Some m' \<longleftrightarrow>
     (\<exists>n. returns_at cfg st rv (mpp - pulse_microseconds st) (homing_setup cfg st x y z c rv m) n \<and>
          m' = snd (cycle_state cfg st x y z c rv mpp m (Suc n)))"
proof
  assume "homing_cycle cfg st x y z c rv mpp m = Some m'"
  then obtain r where r: "homing_loop cfg st rv (mpp - pulse_microseconds st)
      (homing_setup cfg st x y z c rv m) = Some r" and m': "m' = snd r"
    by (auto simp: homing_cycle_def Let_def)
  from homing_loop_Some [OF r] m'
  show "\<exists>n. returns_at cfg st rv (mpp - pulse_microseconds st) (homing_setup cfg st x y z c rv m) n \<and>
          m' = snd (cycle_state cfg st x y z c rv mpp m (Suc n))"
    unfolding cycle_state_def by blast
next
  assume "\<exists>n. returns_at cfg st rv (mpp - pulse_microseconds st) (homing_setup cfg st x y z c rv m) n \<and>
          m' = snd (cycle_state cfg st x y z c rv mpp m (Suc n))"
  then obtain n where
    n: "returns_at cfg st rv (mpp - pulse_microseconds st) (homing_setup cfg st x y z c rv m) n"
    and m': "m' = snd (cycle_state cfg st x y z c rv mpp m (Suc n))" by blast
  from homing_loop_returns_at [OF n] m'
  show "homing_cycle cfg st x y z c rv mpp m = Some m'"
    by (simp add: homing_cycle_def Let_def cycle_state_def del: homing_state.simps)
qed

lemma homing_cycle_quiet_returns:
  assumes "\<And>a n. \<not> triggered cfg st rv (LIMIT_PIN m n) a"
  shows "\<exists>m'. homing_cycle cfg st x y z c rv mpp m = Some m'"
proof -
  have "run_length cfg st rv m a 10 = 10" for a
    by (rule run_length_quiet) (simp add: assms)
  then have "\<forall>a. requested x y z c a \<longrightarrow> (\<exists>k. 10 \<le> run_length cfg st rv m a k)"
    by (metis order_refl)
  then obtain r where "homing_loop cfg st rv (mpp - pulse_microseconds st)
      (homing_setup cfg st x y z c rv m) = Some r"
    using homing_loop_returns_iff [of cfg st rv "mpp - pulse_microseconds st" x y z c m] by blast
  then show ?thesis by (simp add: homing_cycle_def Let_def)
qed

lemma outside_mask_write: "((p AND NOT s) OR (b AND s)) AND NOT s = p AND NOT (s :: u8)"
  by (rule bit_eqI) (auto simp: bit_simps)

lemma outside_mask_toggle: "(b AND s) AND NOT s = (0 :: u8)"
  by (rule bit_eqI) (auto simp: bit_simps)

lemma outside_mask_xor: "(p XOR t) AND NOT s = (p AND NOT s) XOR (t AND NOT (s :: u8))"
  by (rule bit_eqI) (auto simp: bit_simps)

lemma direction_bits_eq:
  "initial_out_bits cfg st x y z c rv AND DIRECTION_MASK cfg =
     ((DIRECTION_MASK cfg XOR (if rv then DIRECTION_MASK cfg else 0)) XOR invert_mask_stepdir st)
       AND DIRECTION_MASK cfg"
  by (rule bit_eqI) (auto simp: initial_out_bits_def Let_def bit_simps)

lemma cycle_state_0:
  "cycle_state cfg st x y z c rv mpp m 0 = homing_setup cfg st x y z c rv m"
  by (simp add: cycle_state_def)

lemma setup_port:
  "STEPPING_PORT (snd (homing_setup cfg st x y z c rv m)) =
     (STEPPING_PORT m AND NOT (DIRECTION_MASK cfg)) OR
     (((DIRECTION_MASK cfg XOR (if rv then DIRECTION_MASK cfg else 0)) XOR invert_mask_stepdir st)
        AND DIRECTION_MASK cfg)"
  "trace (snd (homing_setup cfg st x y z c rv m)) = trace m @
     [STEPPING_PORT_write ((STEPPING_PORT m AND NOT (DIRECTION_MASK cfg)) OR
     (((DIRECTION_MASK cfg XOR (if rv then DIRECTION_MASK cfg else 0)) XOR invert_mask_stepdir st)
        AND DIRECTION_MASK cfg))]"
  unfolding direction_bits_eq [symmetric, of cfg rv st x y z c]
  by (simp_all add: homing_setup_def Let_def write_STEPPING_PORT_def)

lemma iteration_port_trace:
  "\<exists>es. trace (snd (snd (homing_iteration cfg st rv d s))) = trace (snd s) @ es \<and>
        list_all (keeps_outside_step_mask cfg (STEPPING_PORT (snd s))) es \<and>
        STEPPING_PORT (snd (snd (homing_iteration cfg st rv d s))) AND NOT (STEP_MASK cfg) =
          STEPPING_PORT (snd s) AND NOT (STEP_MASK cfg)"
proof (cases "fst (homing_iteration cfg st rv d s)")
  case True
  then show ?thesis by (simp add: iteration_return)
next
  case False
  then show ?thesis
    by (simp add: iteration_pulse step_pulse_fields outside_mask_write outside_mask_toggle
          outside_mask_xor)
qed

lemma keeps_outside_cong:
  "v AND NOT (STEP_MASK cfg) = w AND NOT (STEP_MASK cfg) \<Longrightarrow>
     keeps_outside_step_mask cfg v = keeps_outside_step_mask cfg w"
proof (rule ext)
  fix e
  assume "v AND NOT (STEP_MASK cfg) = w AND NOT (STEP_MASK cfg)"
  then show "keeps_outside_step_mask cfg v e = keeps_outside_step_mask cfg w e"
    by (cases e) simp_all
qed

lemma cycle_port_trace:
  "\<exists>es. trace (snd (cycle_state cfg st x y z c rv mpp m n)) =
          trace (snd (homing_setup cfg st x y z c rv m)) @ es \<and>
        list_all (keeps_outside_step_mask cfg (STEPPING_PORT (snd (homing_setup cfg st x y z c rv m)))) es \<and>
        STEPPING_PORT (snd (cycle_state cfg st x y z c rv mpp m n)) AND NOT (STEP_MASK cfg) =
          STEPPING_PORT (snd (homing_setup cfg st x y z c rv m)) AND NOT (STEP_MASK cfg)"
proof (induction n)
  case 0
  show ?case by (simp add: cycle_state_0)
next
  case (Suc n)
  let ?s = "cycle_state cfg st x y z c rv mpp m n"
  let ?v = "STEPPING_PORT (snd (homing_setup cfg st x y z c rv m))"
  from Suc obtain es where es: "trace (snd ?s) = trace (snd (homing_setup cfg st x y z c rv m)) @ es"
    "list_all (keeps_outside_step_mask cfg ?v) es"
    "STEPPING_PORT (snd ?s) AND NOT (STEP_MASK cfg) = ?v AND NOT (STEP_MASK cfg)"
    by blast
  from iteration_port_trace [of cfg st rv "mpp - pulse_microseconds st" ?s]
  obtain es' where es': "trace (snd (cycle_state cfg st x y z c rv mpp m (Suc n))) = trace (snd ?s) @ es'"
    "list_all (keeps_outside_step_mask cfg (STEPPING_PORT (snd ?s))) es'"
    "STEPPING_PORT (snd (cycle_state cfg st x y z c rv mpp m (Suc n))) AND NOT (STEP_MASK cfg) =
       STEPPING_PORT (snd ?s) AND NOT (STEP_MASK cfg)"
    unfolding cycle_state_Suc by blast
  from es'(2) es(3) have "list_all (keeps_outside_step_mask cfg ?v) es'"
    by (simp only: keeps_outside_cong [OF es(3)])
  with es es' show ?case
    by (intro exI [of _ "es @ es'"]) simp
qed

text \<open>
  Claim C5. The direction bits that \<^verbatim>\<open>homing_cycle\<close> writes are those of
  \<^verbatim>\<open>DIRECTION_MASK\<close> XOR (\<^verbatim>\<open>DIRECTION_MASK\<close> on a reverse pass, else 0) XOR
  \<^verbatim>\<open>settings.invert_mask_stepdir\<close>, restricted to \<^verbatim>\<open>DIRECTION_MASK\<close>, whatever axes are
  requested. They are written once, by a masked update, before the loop; every later
  access to the port leaves the bits outside \<^verbatim>\<open>STEP_MASK\<close> alone.
\<close>

theorem direction_bits_written_once:
  "(let v = (STEPPING_PORT m AND NOT (DIRECTION_MASK cfg)) OR
            (((DIRECTION_MASK cfg XOR (if rv then DIRECTION_MASK cfg else 0))
                XOR invert_mask_stepdir st) AND DIRECTION_MASK cfg)
    in trace (snd (cycle_state cfg st x y z c rv mpp m 0)) = trace m @ [STEPPING_PORT_write v] \<and>
       (\<forall>n. \<exists>es.
          trace (snd (cycle_state cfg st x y z c rv mpp m n)) =
            trace m @ STEPPING_PORT_write v # es \<and>
          list_all (keeps_outside_step_mask cfg v) es \<and>
          STEPPING_PORT (snd (cycle_state cfg st x y z c rv mpp m n)) AND NOT (STEP_MASK cfg) =
            v AND NOT (STEP_MASK cfg)) \<and>
       (\<forall>m'. homing_cycle cfg st x y z c rv mpp m = Some m' \<longrightarrow>
          (\<exists>es. trace m' = trace m @ STEPPING_PORT_write v # es \<and>
             list_all (keeps_outside_step_mask cfg v) es \<and>
             STEPPING_PORT m' AND NOT (STEP_MASK cfg) = v AND NOT (STEP_MASK cfg))))"
proof -
  define v where "v = (STEPPING_PORT m AND NOT (DIRECTION_MASK cfg)) OR
            (((DIRECTION_MASK cfg XOR (if rv then DIRECTION_MASK cfg else 0))
                XOR invert_mask_stepdir st) AND DIRECTION_MASK cfg)"
  have first: "trace (snd (cycle_state cfg st x y z c rv mpp m 0)) =
      trace m @ [STEPPING_PORT_write v]"
    by (simp add: setup_port cycle_state_0 v_def)
  have later: "\<exists>es.
          trace (snd (cycle_state cfg st x y z c rv mpp m n)) =
            trace m @ STEPPING_PORT_write v # es \<and>
          list_all (keeps_outside_step_mask cfg v) es \<and>
          STEPPING_PORT (snd (cycle_state cfg st x y z c rv mpp m n)) AND NOT (STEP_MASK cfg) =
            v AND NOT (STEP_MASK cfg)" for n
    using cycle_port_trace [of cfg st x y z c rv mpp m n]
    by (simp add: setup_port v_def)
  have "\<exists>es. trace m' = trace m @ STEPPING_PORT_write v # es \<and>
             list_all (keeps_outside_step_mask cfg v) es \<and>
             STEPPING_PORT m' AND NOT (STEP_MASK cfg) = v AND NOT (STEP_MASK cfg)"
    if "homing_cycle cfg st x y z c rv mpp m = Some m'" for m'
  proof -
    from that obtain n where "m' = snd (cycle_state cfg st x y z c rv mpp m (Suc n))"
      unfolding homing_cycle_Some_iff by blast
    with later [of "Suc n"] show ?thesis by simp
  qed
  with first later show ?thesis unfolding Let_def v_def [symmetric] by blast
qed

theorem direction_bits_written_once_witness:
  "\<exists>m' es. homing_cycle bench_config (bench_settings 0) True True False False True 7500
        (bench_machine 0x0F (\<lambda>n. 0x0F)) = Some m' \<and>
      trace m' = STEPPING_PORT_write 0x0F # es \<and>
      list_all (keeps_outside_step_mask bench_config 0x0F) es \<and>
      STEPPING_PORT m' AND NOT 0x0F = 0"
proof -
  let ?m = "bench_machine 0x0F (\<lambda>n. 0x0F)"
  have "\<not> triggered bench_config (bench_settings 0) True (LIMIT_PIN ?m n) a" for a n
    by (simp add: triggered_def process_limit_bits_def bench_settings_def bench_config_def
          bench_machine_fields)
  then obtain m' where m': "homing_cycle bench_config (bench_settings 0) True True False False
      True 7500 ?m = Some m'"
    using homing_cycle_quiet_returns by blast
  have c: "DIRECTION_MASK bench_config = 0xF0" "STEP_MASK bench_config = 0x0F"
    "invert_mask_stepdir (bench_settings 0) = 0"
    by (simp_all add: bench_config_def bench_settings_def)
  from direction_bits_written_once
    [of ?m bench_config True "bench_settings 0" True True False False 7500] m'
  show ?thesis
    by (auto simp: Let_def c bench_machine_fields)
qed

subsection \<open>The step pulses\<close>

lemma well_formed_step_bit:
  assumes "well_formed cfg"
  shows "step_bit cfg a < 8" "bit (STEP_MASK cfg) (step_bit cfg a)"
    "\<not> bit (DIRECTION_MASK cfg) (step_bit cfg a)"
    "step_bit cfg a = step_bit cfg b \<longleftrightarrow> a = b"
  using assms by (cases a; cases b; auto simp: well_formed_def)+

lemma stop_bit_bit: "bit (stop_bit b sb) k \<longleftrightarrow> b \<and> k = sb \<and> sb < 8"
  by (auto simp: stop_bit_def bit_simps)

lemma push_bit_1_bit: "bit (push_bit sb 1 :: u8) k \<longleftrightarrow> k = sb \<and> sb < 8"
  by (auto simp: bit_simps)

lemma initial_out_step_bit:
  assumes "well_formed cfg"
  shows "bit (initial_out_bits cfg st x y z c rv) (step_bit cfg a) \<longleftrightarrow>
     (requested x y z c a \<noteq> bit (invert_mask_stepdir st) (step_bit cfg a))"
proof -
  have sb: "X_STEP_BIT cfg = step_bit cfg X_AXIS" "Y_STEP_BIT cfg = step_bit cfg Y_AXIS"
    "Z_STEP_BIT cfg = step_bit cfg Z_AXIS" "C_STEP_BIT cfg = step_bit cfg C_AXIS"
    by (simp_all add: step_bit_def)
  show ?thesis
    unfolding initial_out_bits_def Let_def sb
    using well_formed_step_bit [OF assms]
    by (cases a) (auto simp: bit_simps requested_def)
qed

lemma iteration_step_bit:
  assumes "well_formed cfg"
  shows "bit (out_bits (fst (snd (homing_iteration cfg st rv d s)))) (step_bit cfg a) \<longleftrightarrow>
     (bit (out_bits (fst s)) (step_bit cfg a) \<noteq>
        (axis_active (fst s) a \<and> 10 \<le> next_count cfg st rv s a))"
proof -
  have sb: "X_STEP_BIT cfg = step_bit cfg X_AXIS" "Y_STEP_BIT cfg = step_bit cfg Y_AXIS"
    "Z_STEP_BIT cfg = step_bit cfg Z_AXIS" "C_STEP_BIT cfg = step_bit cfg C_AXIS"
    by (simp_all add: step_bit_def)
  have ax: "x_axis (fst s) = axis_active (fst s) X_AXIS" "y_axis (fst s) = axis_active (fst s) Y_AXIS"
    "z_axis (fst s) = axis_active (fst s) Z_AXIS" "c_axis (fst s) = axis_active (fst s) C_AXIS"
    by (simp_all add: axis_active_def)
  show ?thesis
    unfolding iteration_out_bits sb ax
    using well_formed_step_bit [OF assms]
    by (cases a) (auto simp: bit_xor_iff stop_bit_bit)
qed

lemma cycle_out_bits:
  assumes "well_formed cfg"
  shows "bit (out_bits (fst (cycle_state cfg st x y z c rv mpp m n))) (step_bit cfg a) \<longleftrightarrow>
     (axis_active (fst (cycle_state cfg st x y z c rv mpp m n)) a \<noteq>
        bit (invert_mask_stepdir st) (step_bit cfg a))"
proof (induction n)
  case 0
  show ?case
    by (simp add: cycle_state_0 homing_setup_fields initial_out_step_bit [OF assms])
next
  case (Suc n)
  show ?case
    unfolding cycle_state_Suc iteration_step_bit [OF assms] iteration_active Suc
    by blast
qed

lemma cycle_events_returns:
  assumes "cycle_returns cfg st x y z c rv mpp m n"
  shows "cycle_events cfg st x y z c rv mpp m n = []"
    "STEPPING_PORT (snd (cycle_state cfg st x y z c rv mpp m (Suc n))) =
       STEPPING_PORT (snd (cycle_state cfg st x y z c rv mpp m n))"
  using assms
  by (simp_all add: cycle_events_def cycle_returns_def cycle_state_Suc iteration_return)

lemma cycle_events_pulse:
  assumes "\<not> cycle_returns cfg st x y z c rv mpp m n"
  shows "cycle_events cfg st x y z c rv mpp m n =
     [STEPPING_PORT_write
        ((STEPPING_PORT (snd (cycle_state cfg st x y z c rv mpp m n)) AND NOT (STEP_MASK cfg)) OR
         (out_bits (fst (cycle_state cfg st x y z c rv mpp m (Suc n))) AND STEP_MASK cfg)),
      delay_us (pulse_microseconds st),
      STEPPING_PIN_write (out_bits (fst (cycle_state cfg st x y z c rv mpp m (Suc n))) AND STEP_MASK cfg),
      delay_us (mpp - pulse_microseconds st)]"
  using assms
  by (simp add: cycle_events_def cycle_returns_def cycle_state_Suc iteration_pulse
        step_pulse_fields)

lemma cycle_returns_iff:
  "cycle_returns cfg st x y z c rv mpp m n \<longleftrightarrow>
     (\<forall>a. \<not> axis_active (fst (cycle_state cfg st x y z c rv mpp m (Suc n))) a)"
  by (simp add: cycle_returns_def cycle_state_Suc iteration_done)

lemma cycle_pulse_on:
  assumes "well_formed cfg" and "\<not> cycle_returns cfg st x y z c rv mpp m n"
  shows "step_pulse_on cfg st a (cycle_events cfg st x y z c rv mpp m n) \<longleftrightarrow>
     axis_active (fst (cycle_state cfg st x y z c rv mpp m (Suc n))) a \<and>
     \<not> bit (invert_mask_stepdir st) (step_bit cfg a)"
  unfolding cycle_events_pulse [OF assms(2)]
  using well_formed_step_bit [OF assms(1), of a]
    cycle_out_bits [OF assms(1), of st x y z c rv mpp m "Suc n" a]
  by (auto simp: bit_simps step_line_asserted_def)

text \<open>
  Claim C3, as stated: in an iteration that leaves some axis active, a step pulse is
  emitted for every axis that was active at the start of the iteration. On the test bench
  with X and Y requested, Y held triggered and X not triggered, X is active at the start
  of the tenth iteration and is stopped in it, Y stays active, and the one write and the
  one toggle of the iteration carry the step bit of Y alone: no pulse for X.
\<close>

theorem pulse_for_axis_active_at_start_counterexample:
  "axis_active (fst (cycle_state bench_config (bench_settings 0) True True False False False
      7500 (bench_machine 0 (steady 2)) 9)) X_AXIS \<and>
   axis_active (fst (cycle_state bench_config (bench_settings 0) True True False False False
      7500 (bench_machine 0 (steady 2)) (Suc 9))) Y_AXIS \<and>
   \<not> cycle_returns bench_config (bench_settings 0) True True False False False
      7500 (bench_machine 0 (steady 2)) 9 \<and>
   cycle_events bench_config (bench_settings 0) True True False False False
      7500 (bench_machine 0 (steady 2)) 9 =
     [STEPPING_PORT_write 0xF2, delay_us 10, STEPPING_PIN_write 0x02, delay_us 7490] \<and>
   \<not> step_pulse_on bench_config (bench_settings 0) X_AXIS
      (cycle_events bench_config (bench_settings 0) True True False False False
         7500 (bench_machine 0 (steady 2)) 9)"
  by code_simp

text \<open>
  Claim C3, amended. An iteration returns if and only if no axis is active after its
  debounce processing, and then it emits nothing and leaves the port alone. Every other
  iteration emits exactly one write to the port, the pulse delay, one toggle of the step
  bits that the write has set, and the step delay; for an axis whose step line is not
  inverted these events are a step pulse if and only if the axis is still active after
  the debounce processing of this iteration.
\<close>

theorem step_pulse_per_iteration:
  assumes "well_formed cfg"
  shows "(cycle_returns cfg st x y z c rv mpp m n \<longleftrightarrow>
            (\<forall>a. \<not> axis_active (fst (cycle_state cfg st x y z c rv mpp m (Suc n))) a)) \<and>
    (cycle_returns cfg st x y z c rv mpp m n \<longrightarrow>
       cycle_events cfg st x y z c rv mpp m n = [] \<and>
       STEPPING_PORT (snd (cycle_state cfg st x y z c rv mpp m (Suc n))) =
         STEPPING_PORT (snd (cycle_state cfg st x y z c rv mpp m n))) \<and>
    (\<not> cycle_returns cfg st x y z c rv mpp m n \<longrightarrow>
       (\<exists>p. cycle_events cfg st x y z c rv mpp m n =
          [STEPPING_PORT_write p, delay_us (pulse_microseconds st),
           STEPPING_PIN_write (p AND STEP_MASK cfg), delay_us (mpp - pulse_microseconds st)]) \<and>
       (\<forall>a. \<not> bit (invert_mask_stepdir st) (step_bit cfg a) \<longrightarrow>
          (step_pulse_on cfg st a (cycle_events cfg st x y z c rv mpp m n) \<longleftrightarrow>
             axis_active (fst (cycle_state cfg st x y z c rv mpp m (Suc n))) a)))"
proof (intro conjI impI allI)
  show "cycle_returns cfg st x y z c rv mpp m n \<longleftrightarrow>
            (\<forall>a. \<not> axis_active (fst (cycle_state cfg st x y z c rv mpp m (Suc n))) a)"
    by (rule cycle_returns_iff)
next
  assume "cycle_returns cfg st x y z c rv mpp m n"
  then show "cycle_events cfg st x y z c rv mpp m n = []"
    and "STEPPING_PORT (snd (cycle_state cfg st x y z c rv mpp m (Suc n))) =
         STEPPING_PORT (snd (cycle_state cfg st x y z c rv mpp m n))"
    by (rule cycle_events_returns)+
next
  assume nr: "\<not> cycle_returns cfg st x y z c rv mpp m n"
  have "((p AND NOT s) OR (b AND s)) AND s = b AND (s :: u8)" for p b s
    by (rule bit_eqI) (auto simp: bit_simps)
  then show "\<exists>p. cycle_events cfg st x y z c rv mpp m n =
          [STEPPING_PORT_write p, delay_us (pulse_microseconds st),
           STEPPING_PIN_write (p AND STEP_MASK cfg), delay_us (mpp - pulse_microseconds st)]"
    unfolding cycle_events_pulse [OF nr] by simp
next
  fix a
  assume "\<not> cycle_returns cfg st x y z c rv mpp m n"
    and "\<not> bit (invert_mask_stepdir st) (step_bit cfg a)"
  then show "step_pulse_on cfg st a (cycle_events cfg st x y z c rv mpp m n) \<longleftrightarrow>
             axis_active (fst (cycle_state cfg st x y z c rv mpp m (Suc n))) a"
    by (simp add: cycle_pulse_on [OF assms])
qed

theorem step_pulse_per_iteration_witness:
  "well_formed bench_config \<and>
   \<not> cycle_returns bench_config (bench_settings 0) True True False False False
      7500 (bench_machine 0 (steady 2)) 0 \<and>
   \<not> bit (invert_mask_stepdir (bench_settings 0)) (step_bit bench_config X_AXIS) \<and>
   step_pulse_on bench_config (bench_settings 0) X_AXIS
      (cycle_events bench_config (bench_settings 0) True True False False False
         7500 (bench_machine 0 (steady 2)) 0)"
proof -
  have wf: "well_formed bench_config" by code_simp
  have nr: "\<not> cycle_returns bench_config (bench_settings 0) True True False False False
      7500 (bench_machine 0 (steady 2)) 0" by code_simp
  have act: "axis_active (fst (cycle_state bench_config (bench_settings 0) True True False False
      False 7500 (bench_machine 0 (steady 2)) (Suc 0))) X_AXIS" by code_simp
  have ninv: "\<not> bit (invert_mask_stepdir (bench_settings 0)) (step_bit bench_config X_AXIS)"
    by code_simp
  from step_pulse_per_iteration [OF wf, of "bench_settings 0" True True False False False 7500
      "bench_machine 0 (steady 2)" 0] nr act ninv wf
  show ?thesis by blast
qed

text \<open>
  Claim C4 at a step invert mask that inverts the step line of X: a forward pass with Z
  alone, the port at the idle levels. X is not requested and its line is idle when the
  loop is entered. Every iteration writes the idle level 1 to the line and then toggles it
  to 0, its asserted level, where it stays for the step delay: the line of X is pulsed
  once per iteration.
\<close>

theorem inverted_step_line_of_unrequested_axis_toggles:
  "\<not> requested False False True False X_AXIS \<and>
   \<not> step_line_asserted bench_config (bench_settings 1) X_AXIS
      (STEPPING_PORT (snd (cycle_state bench_config (bench_settings 1) False False True False
         False 7500 (bench_machine 1 (steady 0)) 0))) \<and>
   cycle_events bench_config (bench_settings 1) False False True False False 7500
      (bench_machine 1 (steady 0)) 0 =
     [STEPPING_PORT_write 0xF5, delay_us 10, STEPPING_PIN_write 0x05, delay_us 7490] \<and>
   step_line_asserted bench_config (bench_settings 1) X_AXIS
      (STEPPING_PORT (snd (cycle_state bench_config (bench_settings 1) False False True False
         False 7500 (bench_machine 1 (steady 0)) 1))) \<and>
   cycle_events bench_config (bench_settings 1) False False True False False 7500
      (bench_machine 1 (steady 0)) 1 =
     [STEPPING_PORT_write 0xF5, delay_us 10, STEPPING_PIN_write 0x05, delay_us 7490] \<and>
   step_line_asserted bench_config (bench_settings 1) X_AXIS
      (STEPPING_PORT (snd (cycle_state bench_config (bench_settings 1) False False True False
         False 7500 (bench_machine 1 (steady 0)) 2)))"
  by code_simp

text \<open>
  Where the step line of an axis is not inverted, an axis that is not active after the
  debounce processing of an iteration, because it was not requested or has been stopped,
  gets no pulse in that iteration, and its line, once idle, stays idle through the write
  and the toggle.
\<close>

lemma plain_step_line_stays_idle:
  assumes "well_formed cfg" and "\<not> bit (invert_mask_stepdir st) (step_bit cfg a)"
    and "\<not> axis_active (fst (cycle_state cfg st x y z c rv mpp m (Suc n))) a"
  shows "\<not> step_pulse_on cfg st a (cycle_events cfg st x y z c rv mpp m n)"
    and "\<not> step_line_asserted cfg st a (STEPPING_PORT (snd (cycle_state cfg st x y z c rv mpp m n))) \<Longrightarrow>
       \<not> step_line_asserted cfg st a
           (STEPPING_PORT (snd (cycle_state cfg st x y z c rv mpp m (Suc n)))) \<and>
       (\<forall>p. STEPPING_PORT_write p \<in> set (cycle_events cfg st x y z c rv mpp m n) \<longrightarrow>
            \<not> step_line_asserted cfg st a p)"
proof -
  show "\<not> step_pulse_on cfg st a (cycle_events cfg st x y z c rv mpp m n)"
  proof (cases "cycle_returns cfg st x y z c rv mpp m n")
    case True
    then show ?thesis by (simp add: cycle_events_returns)
  next
    case False
    with assms show ?thesis by (simp add: cycle_pulse_on)
  qed
  assume idle: "\<not> step_line_asserted cfg st a
      (STEPPING_PORT (snd (cycle_state cfg st x y z c rv mpp m n)))"
  show "\<not> step_line_asserted cfg st a
           (STEPPING_PORT (snd (cycle_state cfg st x y z c rv mpp m (Suc n)))) \<and>
       (\<forall>p. STEPPING_PORT_write p \<in> set (cycle_events cfg st x y z c rv mpp m n) \<longrightarrow>
            \<not> step_line_asserted cfg st a p)"
  proof (cases "cycle_returns cfg st x y z c rv mpp m n")
    case True
    with idle show ?thesis by (simp add: cycle_events_returns)
  next
    case False
    have out: "\<not> bit (out_bits (fst (cycle_state cfg st x y z c rv mpp m (Suc n)))) (step_bit cfg a)"
      using assms by (simp add: cycle_out_bits)
    have port: "STEPPING_PORT (snd (cycle_state cfg st x y z c rv mpp m (Suc n))) =
      ((STEPPING_PORT (snd (cycle_state cfg st x y z c rv mpp m n)) AND NOT (STEP_MASK cfg)) OR
         (out_bits (fst (cycle_state cfg st x y z c rv mpp m (Suc n))) AND STEP_MASK cfg))
       XOR (out_bits (fst (cycle_state cfg st x y z c rv mpp m (Suc n))) AND STEP_MASK cfg)"
      using False
      by (simp add: cycle_returns_def cycle_state_Suc iteration_pulse step_pulse_fields)
    show ?thesis
      unfolding cycle_events_pulse [OF False] port
      using out assms(2) well_formed_step_bit [OF assms(1), of a]
      by (simp add: step_line_asserted_def bit_simps)
  qed
qed

subsection \<open>The homing sequence\<close>

lemma bench_run_returns:
  "limits_go_home id id bench_period_us bench_config (bench_settings 0)
     (bench_machine 0 (switching 20 0 0xFF)) \<noteq> None"
  by code_simp

lemma homing_cycle_trace:
  assumes "homing_cycle cfg st x y z c rv mpp m = Some m'"
  shows "\<exists>es. trace m' = trace m @ es" and "position m' = position m"
    and "LIMIT_PIN m' = LIMIT_PIN m" and "reads m \<le> reads m'"
proof -
  from assms obtain n where m': "m' = snd (cycle_state cfg st x y z c rv mpp m (Suc n))"
    unfolding homing_cycle_Some_iff by blast
  from cycle_port_trace [of cfg st x y z c rv mpp m "Suc n"]
  obtain es where "trace m' = trace (snd (homing_setup cfg st x y z c rv m)) @ es"
    unfolding m' by blast
  then show "\<exists>es. trace m' = trace m @ es"
    by (simp add: setup_port(2))
  show "position m' = position m" "LIMIT_PIN m' = LIMIT_PIN m" "reads m \<le> reads m'"
    unfolding m' by (simp_all only: cycle_machine le_add1)
qed

lemma set_machine_zero_eq: "set_machine_zero m = m\<lparr>position := (\<lambda>a. 0)\<rparr>"
proof -
  have "((position m)(C_AXIS := 0, Z_AXIS := 0, Y_AXIS := 0, X_AXIS := 0)) a = 0" for a
    by (cases a) simp_all
  then have "(position m)(C_AXIS := 0, Z_AXIS := 0, Y_AXIS := 0, X_AXIS := 0) = (\<lambda>a. 0)"
    by (intro ext)
  then show ?thesis by (simp only: set_machine_zero_def)
qed

lemma limits_go_home_Some_iff:
  "limits_go_home plan_synchronize st_enable to_period_us cfg st m = Some m' \<longleftrightarrow>
     (\<exists>m1 m2 m3.
        homing_cycle cfg st False False (HOME_Z cfg) False False
          (to_period_us (default_seek_rate st) (steps_per_mm st X_AXIS))
          (st_enable (plan_synchronize m)) = Some m1 \<and>
        homing_cycle cfg st (HOME_X cfg) (HOME_Y cfg) False (HOME_C cfg) False
          (to_period_us (default_seek_rate st) (steps_per_mm st X_AXIS)) m1 = Some m2 \<and>
        homing_cycle cfg st (HOME_X cfg) (HOME_Y cfg) (HOME_Z cfg) (HOME_C cfg) True
          (to_period_us (default_feed_rate st) (steps_per_mm st X_AXIS)) m2 = Some m3 \<and>
        m' = set_machine_zero m3)"
  unfolding limits_go_home_def approach_limit_switch_def leave_limit_switch_def Let_def
  by (simp split: option.split) blast

text \<open>
  Claim C7. \<^verbatim>\<open>limits_go_home\<close> returns if and only if its three passes return one after
  the other, each started on the machine that the step before has left: first
  \<^verbatim>\<open>plan_synchronize\<close> and \<^verbatim>\<open>st_enable\<close>, then the approach pass at the seek rate with Z
  alone (if Z is homed) and without X, Y and C, then the approach pass at the seek rate
  with the homed axes among X, Y and C and without Z, then the retreat pass at the feed
  rate with all homed axes, then the commit of the position. The events of the passes
  follow each other in the trace in this order.
\<close>

theorem limits_go_home_sequence:
  "limits_go_home plan_synchronize st_enable to_period_us cfg st m = Some m' \<longleftrightarrow>
     (\<exists>m1 m2 m3.
        homing_cycle cfg st False False (HOME_Z cfg) False False
          (to_period_us (default_seek_rate st) (steps_per_mm st X_AXIS))
          (st_enable (plan_synchronize m)) = Some m1 \<and>
        homing_cycle cfg st (HOME_X cfg) (HOME_Y cfg) False (HOME_C cfg) False
          (to_period_us (default_seek_rate st) (steps_per_mm st X_AXIS)) m1 = Some m2 \<and>
        homing_cycle cfg st (HOME_X cfg) (HOME_Y cfg) (HOME_Z cfg) (HOME_C cfg) True
          (to_period_us (default_feed_rate st) (steps_per_mm st X_AXIS)) m2 = Some m3 \<and>
        m' = m3\<lparr>position := (\<lambda>a. 0)\<rparr> \<and>
        (\<exists>e1 e2 e3. trace m1 = trace (st_enable (plan_synchronize m)) @ e1 \<and>
           trace m2 = trace m1 @ e2 \<and> trace m' = trace m2 @ e3))"
  (is "?L \<longleftrightarrow> ?R")
proof
  assume ?L
  then obtain m1 m2 m3 where
    p1: "homing_cycle cfg st False False (HOME_Z cfg) False False
        (to_period_us (default_seek_rate st) (steps_per_mm st X_AXIS))
        (st_enable (plan_synchronize m)) = Some m1"
    and p2: "homing_cycle cfg st (HOME_X cfg) (HOME_Y cfg) False (HOME_C cfg) False
        (to_period_us (default_seek_rate st) (steps_per_mm st X_AXIS)) m1 = Some m2"
    and p3: "homing_cycle cfg st (HOME_X cfg) (HOME_Y cfg) (HOME_Z cfg) (HOME_C cfg) True
        (to_period_us (default_feed_rate st) (steps_per_mm st X_AXIS)) m2 = Some m3"
    and m': "m' = set_machine_zero m3"
    unfolding limits_go_home_Some_iff by blast
  from homing_cycle_trace(1) [OF p1] obtain e1 where
    e1: "trace m1 = trace (st_enable (plan_synchronize m)) @ e1" ..
  from homing_cycle_trace(1) [OF p2] obtain e2 where e2: "trace m2 = trace m1 @ e2" ..
  from homing_cycle_trace(1) [OF p3] obtain e3 where e3: "trace m3 = trace m2 @ e3" ..
  from m' have eq: "m' = m3\<lparr>position := (\<lambda>a. 0)\<rparr>" by (simp only: set_machine_zero_eq)
  with e3 have "trace m' = trace m2 @ e3" by simp
  with e1 e2 have "\<exists>e1 e2 e3. trace m1 = trace (st_enable (plan_synchronize m)) @ e1 \<and>
           trace m2 = trace m1 @ e2 \<and> trace m' = trace m2 @ e3" by blast
  with p1 p2 p3 eq show ?R by blast
next
  assume ?R
  then show ?L unfolding limits_go_home_Some_iff set_machine_zero_eq by blast
qed

theorem limits_go_home_sequence_witness:
  "\<exists>m1 m2 m3.
     homing_cycle bench_config (bench_settings 0) False False True False False 7500
       (bench_machine 0 (switching 20 0 0xFF)) = Some m1 \<and>
     homing_cycle bench_config (bench_settings 0) True True False False False 7500 m1 = Some m2 \<and>
     homing_cycle bench_config (bench_settings 0) True True True False True 15000 m2 = Some m3 \<and>
     limits_go_home id id bench_period_us bench_config (bench_settings 0)
       (bench_machine 0 (switching 20 0 0xFF)) = Some (m3\<lparr>position := (\<lambda>a. 0)\<rparr>)"
proof -
  from bench_run_returns obtain m' where m': "limits_go_home id id bench_period_us bench_config (bench_settings 0)
       (bench_machine 0 (switching 20 0 0xFF)) = Some m'" by blast
  have c: "HOME_X bench_config" "HOME_Y bench_config" "HOME_Z bench_config" "\<not> HOME_C bench_config"
    "bench_period_us (default_seek_rate (bench_settings 0)) (steps_per_mm (bench_settings 0) X_AXIS) = 7500"
    "bench_period_us (default_feed_rate (bench_settings 0)) (steps_per_mm (bench_settings 0) X_AXIS) = 15000"
    by (simp_all add: bench_config_def bench_settings_def bench_period_us_def)
  have c: "HOME_X bench_config = True" "HOME_Y bench_config = True" "HOME_Z bench_config = True"
    "HOME_C bench_config = False"
    "bench_period_us (default_seek_rate (bench_settings 0)) (steps_per_mm (bench_settings 0) X_AXIS) = 7500"
    "bench_period_us (default_feed_rate (bench_settings 0)) (steps_per_mm (bench_settings 0) X_AXIS) = 15000"
    using c by simp_all
  from limits_go_home_sequence [THEN iffD1, OF m'] obtain m1 m2 m3 where
    "homing_cycle bench_config (bench_settings 0) False False True False False 7500
       (bench_machine 0 (switching 20 0 0xFF)) = Some m1"
    "homing_cycle bench_config (bench_settings 0) True True False False False 7500 m1 = Some m2"
    "homing_cycle bench_config (bench_settings 0) True True True False True 15000 m2 = Some m3"
    "m' = m3\<lparr>position := (\<lambda>a. 0)\<rparr>"
    unfolding c id_apply by blast
  with m' show ?thesis by blast
qed

subsection \<open>The position after homing\<close>

text \<open>
  Claim C1, as stated: the coordinate of an axis that is not homed is left unchanged. On
  the test bench C is not homed and its coordinate is 5 before the run; after the run it
  is 0.
\<close>

theorem homed_axes_only_counterexample:
  "\<not> HOME_C bench_config \<and>
   position_after (Some (bench_machine 0 (switching 20 0 0xFF))) C_AXIS = Some 5 \<and>
   position_after
     (limits_go_home id id bench_period_us bench_config (bench_settings 0)
        (bench_machine 0 (switching 20 0 0xFF))) C_AXIS = Some 0"
  by code_simp

text \<open>
  Claim C1, amended. After a run of \<^verbatim>\<open>limits_go_home\<close> that returns, the coordinates of all
  four axes are 0, whether the axis is homed or not.
\<close>

theorem machine_zero_all_axes:
  assumes "limits_go_home plan_synchronize st_enable to_period_us cfg st m = Some m'"
  shows "position m' X_AXIS = 0 \<and> position m' Y_AXIS = 0 \<and> position m' Z_AXIS = 0 \<and>
    position m' C_AXIS = 0"
  using assms
  unfolding limits_go_home_Some_iff by (auto simp: set_machine_zero_def)

theorem machine_zero_all_axes_witness:
  "\<exists>m'. limits_go_home id id bench_period_us bench_config (bench_settings 0)
       (bench_machine 0 (switching 20 0 0xFF)) = Some m' \<and>
     position m' X_AXIS = 0 \<and> position m' Y_AXIS = 0 \<and> position m' Z_AXIS = 0 \<and>
     position m' C_AXIS = 0"
proof -
  from bench_run_returns obtain m' where m': "limits_go_home id id bench_period_us bench_config (bench_settings 0)
       (bench_machine 0 (switching 20 0 0xFF)) = Some m'" by blast
  from machine_zero_all_axes [OF m'] m' show ?thesis by blast
qed

subsection \<open>The step delay\<close>









end
